theory Spec2Isabelle
  imports Complex_Main "HOL-Library.Multiset" "HOL-Library.Log_Nat"
begin

section \<open>JavaScript arrays and numbers\<close>

text \<open>
  The scheduler of \<^verbatim>\<open>src/types/pagination.ts\<close> receives its sizes and counts as JavaScript
  numbers. They are modelled as mathematical integers (\<^typ>\<open>int\<close>): the loops do go through
  negative indices when an argument is negative, and \<^verbatim>\<open>Array.prototype.slice\<close> gives negative
  indices a meaning of their own, so the sign is kept. Fractions and the rounding of doubles
  beyond \<open>2^53\<close> are outside the model.
\<close>

definition relative_index :: "nat \<Rightarrow> int \<Rightarrow> nat" where
  \<comment> \<open>how \<^verbatim>\<open>slice\<close> reads an index: a negative one counts from the end, both are clamped\<close>
  "relative_index len k = (if k < 0 then nat (max (int len + k) 0) else min (nat k) len)"

definition slice :: "'a list \<Rightarrow> int \<Rightarrow> int \<Rightarrow> 'a list" where
  \<comment> \<open>\<^verbatim>\<open>array.slice(start, end)\<close>\<close>
  "slice array start end' =
     (let k = relative_index (length array) start;
          final = relative_index (length array) end'
      in take (final - k) (drop k array))"

section \<open>chunkArray\<close>

text \<open>
  \<^verbatim>\<open>for (let i = 0; i < array.length; i += chunkSize) chunks.push(array.slice(i, i + chunkSize))\<close>.
  The loop does not end when \<^verbatim>\<open>chunkSize\<close> is zero or negative and the array is not empty,
  so it is a partial function: \<open>None\<close> is "never returns".
\<close>

partial_function (option) chunkArray_loop ::
  "'a list \<Rightarrow> int \<Rightarrow> int \<Rightarrow> 'a list list \<Rightarrow> 'a list list option" where
  "chunkArray_loop array chunkSize i chunks =
     (if i < int (length array)
      then chunkArray_loop array chunkSize (i + chunkSize) (chunks @ [slice array i (i + chunkSize)])
      else Some chunks)"

definition chunkArray :: "'a list \<Rightarrow> int \<Rightarrow> 'a list list option" where
  "chunkArray array chunkSize = chunkArray_loop array chunkSize 0 []"

declare chunkArray_loop.simps [code]

definition chunk_count :: "nat \<Rightarrow> nat \<Rightarrow> nat" where
  \<comment> \<open>the number of chunks of size \<open>n\<close> needed for \<open>len\<close> items, rounded up\<close>
  "chunk_count len n = (len + n - 1) div n"

section \<open>Promises and Promise.all\<close>

text \<open>
  A callback handed to the scheduler returns a promise when it is invoked. What the scheduler
  can see of a promise is when it settles, relative to the other promises of its wave
  (\<open>settledAt\<close>), how it settles (\<open>outcome\<close>: \<open>Inl\<close> a rejection reason, \<open>Inr\<close> the value) and
  what its completion does to the state shared with the other callbacks (\<open>onSettled\<close>, run
  at the moment the promise settles). Callbacks are taken not to throw synchronously.
\<close>

datatype ('s, 'e, 'r) promise =
  Promise (settledAt: nat) (outcome: "'e + 'r") (onSettled: "'s \<Rightarrow> 's")

fun rejections :: "('s, 'e, 'r) promise list \<Rightarrow> 'e list" where
  "rejections [] = []"
| "rejections (p # ps) = (case outcome p of Inl e \<Rightarrow> e # rejections ps | Inr _ \<Rightarrow> rejections ps)"

fun fulfilments :: "('s, 'e, 'r) promise list \<Rightarrow> 'r list" where
  "fulfilments [] = []"
| "fulfilments (p # ps) = (case outcome p of Inl _ \<Rightarrow> fulfilments ps | Inr v \<Rightarrow> v # fulfilments ps)"

text \<open>
  \<^verbatim>\<open>await Promise.all(promises)\<close>: the promises settle in the order of their times (promises
  with equal times in array order, \<^const>\<open>sort_key\<close> being stable), each running its completion
  on the shared state. If one rejects, the await throws the reason of the first to reject;
  otherwise it yields the values in array order. Nothing is cancelled on a rejection, so the
  state returned is the one reached when every promise of the wave has settled.
\<close>

definition Promise_all :: "('s, 'e, 'r) promise list \<Rightarrow> 's \<Rightarrow> ('e + 'r list) \<times> 's" where
  "Promise_all promises st =
     (let settled = sort_key settledAt promises;
          st' = foldl (\<lambda>s p. onSettled p s) st settled
      in (case rejections settled of [] \<Rightarrow> Inr (fulfilments promises) | e # _ \<Rightarrow> Inl e, st'))"

section \<open>processChunksInParallel\<close>

text \<open>
  The wave loop of \<^verbatim>\<open>processChunksInParallel\<close>. Besides the result the model returns the
  list of the chunks \<^verbatim>\<open>processChunk\<close> was invoked with, in invocation order, and the final
  shared state. A rejected wave ends the call (\<open>Inl\<close>); a loop that never ends is \<open>None\<close>.
\<close>

partial_function (option) processChunks_loop ::
  "'a list list \<Rightarrow> ('a list \<Rightarrow> ('s, 'e, 'r) promise) \<Rightarrow> int \<Rightarrow> int \<Rightarrow> 'r list \<Rightarrow>
   'a list list \<Rightarrow> 's \<Rightarrow> (('e + 'r list) \<times> 'a list list \<times> 's) option" where
  "processChunks_loop chunks processChunk maxConcurrency i results calls st =
     (if i < int (length chunks)
      then let batch = slice chunks i (i + maxConcurrency);
               promises = map processChunk batch
           in (case Promise_all promises st of
                 (Inl e, st') \<Rightarrow> Some (Inl e, calls @ batch, st')
               | (Inr batchResults, st') \<Rightarrow>
                   processChunks_loop chunks processChunk maxConcurrency (i + maxConcurrency)
                     (results @ batchResults) (calls @ batch) st')
      else Some (Inr results, calls, st))"

declare processChunks_loop.simps [code]

definition processChunksInParallel ::
  "'a list \<Rightarrow> int \<Rightarrow> ('a list \<Rightarrow> ('s, 'e, 'r) promise) \<Rightarrow> int \<Rightarrow> 's \<Rightarrow>
   (('e + 'r list) \<times> 'a list list \<times> 's) option" where
  "processChunksInParallel items chunkSize processChunk maxConcurrency st =
     (case chunkArray items chunkSize of
        None \<Rightarrow> None
      | Some chunks \<Rightarrow> processChunks_loop chunks processChunk maxConcurrency 0 [] [] st)"

section \<open>processChunksInParallelWithSum\<close>

text \<open>
  The per-chunk results are JavaScript numbers, that is IEEE 754 doubles, and \<^verbatim>\<open>+\<close> is their
  addition: the exact sum rounded to the nearest double, ties to the even significand. A
  finite double is the rational it stands for; a finite value \<open>x\<close> is a double when
  \<open>to_number x = Finite x\<close>. The sign of zero is not kept: the reduction starts from \<open>+0\<close>,
  and from there no sum is \<open>-0\<close>.
\<close>

datatype number = Finite rat | PlusInfinity | MinusInfinity | NotANumber

definition exponent :: "rat \<Rightarrow> int" where
  \<comment> \<open>for \<open>x \<noteq> 0\<close> the \<open>e\<close> with \<open>2^e \<le> |x| < 2^(e+1)\<close>, from the bit lengths of numerator
     and denominator\<close>
  "exponent x =
     (let (n, d) = quotient_of \<bar>x\<bar>; e = bitlen n - bitlen d
      in if 2 powi e \<le> \<bar>x\<bar> then e else e - 1)"

definition round_to_even :: "rat \<Rightarrow> int" where
  \<comment> \<open>the nearest integer, the even one of two equally near\<close>
  "round_to_even x =
     (let f = \<lfloor>x\<rfloor>; r = x - of_int f
      in if r < 1 / 2 then f else if 1 / 2 < r then f + 1 else if even f then f else f + 1)"

definition to_number :: "rat \<Rightarrow> number" where
  \<comment> \<open>rounding to a double: 53 significant bits, least exponent \<open>-1074\<close> (subnormals),
     overflow to an infinity from \<open>2^1024\<close> on\<close>
  "to_number x =
     (if x = 0 then Finite 0
      else let quantum = 2 powi (max (exponent x - 52) (- 1074));
               y = of_int (round_to_even (x / quantum)) * quantum
           in if 2 ^ 1024 \<le> y then PlusInfinity
              else if y \<le> - (2 ^ 1024) then MinusInfinity
              else Finite y)"

fun plus_number :: "number \<Rightarrow> number \<Rightarrow> number" where
  \<comment> \<open>\<^verbatim>\<open>total + result\<close>\<close>
  "plus_number (Finite x) (Finite y) = to_number (x + y)"
| "plus_number NotANumber b = NotANumber"
| "plus_number a NotANumber = NotANumber"
| "plus_number PlusInfinity MinusInfinity = NotANumber"
| "plus_number MinusInfinity PlusInfinity = NotANumber"
| "plus_number PlusInfinity b = PlusInfinity"
| "plus_number MinusInfinity b = MinusInfinity"
| "plus_number (Finite x) b = b"

text \<open>\<^verbatim>\<open>results.reduce((total, result) => total + result, 0)\<close> after the await.\<close>

definition processChunksInParallelWithSum ::
  "'a list \<Rightarrow> int \<Rightarrow> ('a list \<Rightarrow> ('s, 'e, number) promise) \<Rightarrow> int \<Rightarrow> 's \<Rightarrow>
   (('e + number) \<times> 'a list list \<times> 's) option" where
  "processChunksInParallelWithSum items chunkSize processChunk maxConcurrency st =
     (case processChunksInParallel items chunkSize processChunk maxConcurrency st of
        None \<Rightarrow> None
      | Some (Inl e, calls, st') \<Rightarrow> Some (Inl e, calls, st')
      | Some (Inr results, calls, st') \<Rightarrow>
          Some (Inr (foldl (\<lambda>total result. plus_number total result) (Finite 0) results),
                calls, st'))"

section \<open>processPaginatedInParallel\<close>

text \<open>
  \<^verbatim>\<open>totalCount / pageSize\<close> is a JavaScript division: by zero it gives an infinity or
  \<^verbatim>\<open>NaN\<close>, which then flow through \<^verbatim>\<open>Math.ceil\<close>, \<^verbatim>\<open>Math.floor\<close>, \<^verbatim>\<open>Math.min\<close> and
  \<^verbatim>\<open><\<close>. The quotient of two integers is otherwise taken exactly.
\<close>

datatype jsnum = Num int | PosInfinity | NegInfinity | NaN

definition ceil_quotient :: "int \<Rightarrow> int \<Rightarrow> jsnum" where
  \<comment> \<open>\<^verbatim>\<open>Math.ceil(a / b)\<close>\<close>
  "ceil_quotient a b =
     (if b = 0 then (if 0 < a then PosInfinity else if a < 0 then NegInfinity else NaN)
      else Num (- ((- a) div b)))"

definition floor_quotient :: "int \<Rightarrow> int \<Rightarrow> jsnum" where
  \<comment> \<open>\<^verbatim>\<open>Math.floor(a / b)\<close>\<close>
  "floor_quotient a b =
     (if b = 0 then (if 0 < a then PosInfinity else if a < 0 then NegInfinity else NaN)
      else Num (a div b))"

fun less_js :: "int \<Rightarrow> jsnum \<Rightarrow> bool" where
  \<comment> \<open>\<^verbatim>\<open>i < t\<close>\<close>
  "less_js i (Num n) = (i < n)"
| "less_js i PosInfinity = True"
| "less_js i NegInfinity = False"
| "less_js i NaN = False"

fun min_js :: "int \<Rightarrow> jsnum \<Rightarrow> jsnum" where
  \<comment> \<open>\<^verbatim>\<open>Math.min(a, t)\<close>\<close>
  "min_js a (Num n) = Num (min a n)"
| "min_js a PosInfinity = Num a"
| "min_js a NegInfinity = NegInfinity"
| "min_js a NaN = NaN"

fun plus_js :: "jsnum \<Rightarrow> int \<Rightarrow> jsnum" where
  \<comment> \<open>\<^verbatim>\<open>t + k\<close>\<close>
  "plus_js (Num n) k = Num (n + k)"
| "plus_js t k = t"

fun pageIndexes :: "int \<Rightarrow> jsnum \<Rightarrow> int list" where
  \<comment> \<open>the values \<^verbatim>\<open>pageIndex\<close> takes in
     \<^verbatim>\<open>for (let pageIndex = batchStart; pageIndex < batchEnd; pageIndex++)\<close>; the bound is a
     \<^verbatim>\<open>Math.min\<close> with a finite argument, hence never \<open>+Infinity\<close>\<close>
  "pageIndexes batchStart (Num batchEnd) = [batchStart..batchEnd - 1]"
| "pageIndexes batchStart t = []"

text \<open>
  The wave loop of \<^verbatim>\<open>processPaginatedInParallel\<close>, with the list of the \<open>(offset, limit)\<close>
  pairs \<^verbatim>\<open>readPage\<close> was invoked with, in invocation order.
\<close>

partial_function (option) processPaginated_loop ::
  "int \<Rightarrow> int \<Rightarrow> (int \<Rightarrow> int \<Rightarrow> ('s, 'e, 't list) promise) \<Rightarrow> int \<Rightarrow> jsnum \<Rightarrow> int \<Rightarrow>
   't list \<Rightarrow> (int \<times> int) list \<Rightarrow> 's \<Rightarrow> (('e + 't list) \<times> (int \<times> int) list \<times> 's) option" where
  "processPaginated_loop totalCount pageSize readPage maxConcurrency totalPages i allResults calls st =
     (if less_js i totalPages
      then let batchStart = i;
               batchEnd = min_js (i + maxConcurrency) totalPages;
               requests = map (\<lambda>pageIndex.
                             let offset = pageIndex * pageSize;
                                 limit = min pageSize (totalCount - offset)
                             in (offset, limit))
                           (pageIndexes batchStart batchEnd);
               batchPromises = map (\<lambda>(offset, limit). readPage offset limit) requests
           in (case Promise_all batchPromises st of
                 (Inl e, st') \<Rightarrow> Some (Inl e, calls @ requests, st')
               | (Inr batchResults, st') \<Rightarrow>
                   processPaginated_loop totalCount pageSize readPage maxConcurrency totalPages
                     (i + maxConcurrency) (allResults @ concat batchResults) (calls @ requests) st')
      else Some (Inr allResults, calls, st))"

declare processPaginated_loop.simps [code]

definition processPaginatedInParallel ::
  "int \<Rightarrow> int \<Rightarrow> (int \<Rightarrow> int \<Rightarrow> ('s, 'e, 't list) promise) \<Rightarrow> int \<Rightarrow> 's \<Rightarrow>
   (('e + 't list) \<times> (int \<times> int) list \<times> 's) option" where
  "processPaginatedInParallel totalCount pageSize readPage maxConcurrency st =
     (let totalPages = ceil_quotient totalCount pageSize
      in processPaginated_loop totalCount pageSize readPage maxConcurrency totalPages 0 [] [] st)"

section \<open>processPaginatedWithProgress\<close>

text \<open>
  The closure state of \<^verbatim>\<open>processPaginatedWithProgress\<close>: the counter \<^verbatim>\<open>recordsProcessed\<close>,
  and the arguments of every call of \<^verbatim>\<open>onProgress\<close> so far, in call order. The optional
  callback itself is a flag: \<open>True\<close> when one is supplied. It is taken not to throw.
\<close>

record progress =
  recordsProcessed :: int
  progressCalls :: "(jsnum \<times> jsnum \<times> int) list"

text \<open>
  \<^verbatim>\<open>readPageWithProgress\<close> awaits the page and then, still in the same turn, counts and
  reports it. Its promise therefore settles as the page's promise does, and its completion
  is the page's completion followed by the update of the closure state; a rejected page
  skips the update.
\<close>

definition readPageWithProgress ::
  "(int \<Rightarrow> int \<Rightarrow> ('s, 'e, 't list) promise) \<Rightarrow> int \<Rightarrow> jsnum \<Rightarrow> bool \<Rightarrow> int \<Rightarrow> int \<Rightarrow>
   ('s \<times> progress, 'e, 't list) promise" where
  "readPageWithProgress readPage pageSize totalPages onProgress offset limit =
     (let p = readPage offset limit
      in Promise (settledAt p) (outcome p)
           (\<lambda>(st, pr).
              (onSettled p st,
               case outcome p of
                 Inl e \<Rightarrow> pr
               | Inr result \<Rightarrow>
                   let count = recordsProcessed pr + int (length result);
                       currentPage = plus_js (floor_quotient offset pageSize) 1
                   in \<lparr>recordsProcessed = count,
                       progressCalls =
                         (if onProgress then progressCalls pr @ [(currentPage, totalPages, count)]
                          else progressCalls pr)\<rparr>)))"

definition processPaginatedWithProgress ::
  "int \<Rightarrow> int \<Rightarrow> (int \<Rightarrow> int \<Rightarrow> ('s, 'e, 't list) promise) \<Rightarrow> int \<Rightarrow> bool \<Rightarrow> 's \<Rightarrow>
   (('e + 't list) \<times> (int \<times> int) list \<times> 's \<times> progress) option" where
  "processPaginatedWithProgress totalCount pageSize readPage maxConcurrency onProgress st =
     (let totalPages = ceil_quotient totalCount pageSize
      in processPaginatedInParallel totalCount pageSize
           (readPageWithProgress readPage pageSize totalPages onProgress) maxConcurrency
           (st, \<lparr>recordsProcessed = 0, progressCalls = []\<rparr>))"

section \<open>Example callbacks\<close>

text \<open>
  The callbacks of the examples: a chunk's sum and a page of consecutive integers, both
  settling the earlier the later their input comes, so that within a wave the completion
  order is the reverse of the input order; a callback that rejects one chunk and one that
  rejects every chunk, with the chunk's sum as the reason; and the chunk's sum as a
  JavaScript number.
\<close>

definition sumOfChunk :: "int list \<Rightarrow> (unit, string, int) promise" where
  "sumOfChunk chunk = Promise (nat (100 - sum_list chunk)) (Inr (sum_list chunk)) id"

definition rangePage :: "int \<Rightarrow> int \<Rightarrow> (unit, string, int list) promise" where
  "rangePage offset limit = Promise (nat (100 - offset)) (Inr [offset..offset + limit - 1]) id"

definition failOnSeven :: "int list \<Rightarrow> (unit, string, int) promise" where
  "failOnSeven chunk =
     (if sum_list chunk = 7 then Promise 0 (Inl ''seven'') id else sumOfChunk chunk)"

definition rejectAll :: "int list \<Rightarrow> (unit, int, int) promise" where
  "rejectAll chunk = Promise (nat (100 - sum_list chunk)) (Inl (sum_list chunk)) id"

definition numberOfChunk :: "int list \<Rightarrow> (unit, string, number) promise" where
  "numberOfChunk chunk =
     Promise (nat (100 - sum_list chunk)) (Inr (Finite (of_int (sum_list chunk)))) id"

section \<open>compareListsByKey\<close>

text \<open>
  \<^verbatim>\<open>compareListsByKey\<close> of \<^verbatim>\<open>src/utils/arrayUtils.ts\<close> is generic in the item types, but it
  tests a source item for truthiness, which depends on the JavaScript value the item is.
  Source items, and what \<^verbatim>\<open>transformFound\<close> returns, are therefore JavaScript values; numbers
  are integers here, \<^verbatim>\<open>NaN\<close> (falsy as well) is left out.
\<close>

datatype jsval =
  Undefined | Null | Boolean bool | Number int | Str string | Object "(string \<times> jsval) list"

fun truthy :: "jsval \<Rightarrow> bool" where
  "truthy Undefined = False"
| "truthy Null = False"
| "truthy (Boolean b) = b"
| "truthy (Number n) = (n \<noteq> 0)"
| "truthy (Str s) = (s \<noteq> [])"
| "truthy (Object props) = True"

text \<open>
  A key selector returns \<^verbatim>\<open>string | number\<close>, and \<^verbatim>\<open>String(...)\<close> turns it into the key of
  the lookup: a string is itself, a number its numeral. Number keys are the safe integers,
  those of magnitude up to \<open>2^53 - 1\<close>, which JavaScript prints as their decimal numerals;
  fractions and larger numbers, which it prints in other ways, are not keys of the model.
\<close>

typedef safe_integer = "{n :: int. \<bar>n\<bar> \<le> 9007199254740991}"
  morphisms integer_of Safe
  by (rule exI [of _ 0]) simp

datatype key = StringKey string | NumberKey safe_integer

fun decimal :: "nat \<Rightarrow> string" where
  "decimal n =
     (if n < 10 then [''0123456789'' ! n]
      else decimal (n div 10) @ [''0123456789'' ! (n mod 10)])"

declare decimal.simps [simp del]

fun String :: "key \<Rightarrow> string" where
  "String (StringKey s) = s"
| "String (NumberKey n) =
     (if integer_of n < 0 then CHR ''-'' # decimal (nat (- integer_of n))
      else decimal (nat (integer_of n)))"

definition sourceMap_of :: "(jsval \<Rightarrow> key) \<Rightarrow> jsval list \<Rightarrow> (string \<rightharpoonup> jsval)" where
  \<comment> \<open>\<^verbatim>\<open>new Map(sourceList.map(item => [String(sourceKeySelector(item)), item]))\<close>: the entries
     are set in list order, a later one replacing an earlier one with the same key\<close>
  "sourceMap_of sourceKeySelector sourceList =
     foldl (\<lambda>m item. m(String (sourceKeySelector item) \<mapsto> item)) Map.empty sourceList"

definition Map_get :: "(string \<rightharpoonup> jsval) \<Rightarrow> string \<Rightarrow> jsval" where
  \<comment> \<open>\<^verbatim>\<open>map.get(k)\<close> is \<^verbatim>\<open>undefined\<close> for a key that is not there\<close>
  "Map_get m k = (case m k of None \<Rightarrow> Undefined | Some v \<Rightarrow> v)"

record 'u comparison =
  found :: "jsval list"
  notFound :: "'u list"

fun compare_loop ::
  "(string \<rightharpoonup> jsval) \<Rightarrow> ('u \<Rightarrow> key) \<Rightarrow> (jsval \<Rightarrow> 'u \<Rightarrow> jsval) option \<Rightarrow> 'u list \<Rightarrow>
   'u comparison \<Rightarrow> 'u comparison" where
  "compare_loop sourceMap targetKeySelector transformFound [] acc = acc"
| "compare_loop sourceMap targetKeySelector transformFound (targetItem # rest) acc =
     (let sourceItem = Map_get sourceMap (String (targetKeySelector targetItem))
      in if truthy sourceItem
         then (case transformFound of
                 Some f \<Rightarrow>
                   compare_loop sourceMap targetKeySelector transformFound rest
                     (acc\<lparr>found := found acc @ [f sourceItem targetItem]\<rparr>)
               | None \<Rightarrow>
                   compare_loop sourceMap targetKeySelector transformFound rest
                     (acc\<lparr>found := found acc @ [sourceItem]\<rparr>))
         else compare_loop sourceMap targetKeySelector transformFound rest
                (acc\<lparr>notFound := notFound acc @ [targetItem]\<rparr>))"

definition compareListsByKey ::
  "jsval list \<Rightarrow> 'u list \<Rightarrow> (jsval \<Rightarrow> key) \<Rightarrow> ('u \<Rightarrow> key) \<Rightarrow> (jsval \<Rightarrow> 'u \<Rightarrow> jsval) option \<Rightarrow>
   'u comparison" where
  "compareListsByKey sourceList targetList sourceKeySelector targetKeySelector transformFound =
     compare_loop (sourceMap_of sourceKeySelector sourceList) targetKeySelector transformFound
       targetList \<lparr>found = [], notFound = []\<rparr>"

definition numberKey :: "jsval \<Rightarrow> key" where
  \<comment> \<open>the key selector \<^verbatim>\<open>x => x\<close> of the examples, on items that are safe integers; any
     other item gets the empty key\<close>
  "numberKey item =
     (case item of
        Number n \<Rightarrow> if \<bar>n\<bar> \<le> 9007199254740991 then NumberKey (Safe n) else StringKey []
      | _ \<Rightarrow> StringKey [])"

section \<open>PaginationRequestSchema\<close>

text \<open>
  The schema is a declaration of the zod library:
  \<^verbatim>\<open>z.object({ page: z.number().min(0).default(0), size: z.number().min(1).max(100).default(10) })\<close>.
  What zod does with it: the input must be an object; a field that is \<^verbatim>\<open>undefined\<close> takes
  its default and is not checked; \<^verbatim>\<open>z.number()\<close> accepts the finite numbers and nothing
  else; \<^verbatim>\<open>min\<close> and \<^verbatim>\<open>max\<close> are inclusive bounds; the issues of all fields are collected,
  each with the path of its field and a code. A finite number is a real here.
\<close>

datatype field_value = Absent | NumberValue real | NonFinite | NonNumber

datatype raw_input = NotAnObject | ObjectWith (page_field: field_value) (size_field: field_value)

datatype issue_code = invalid_type | too_small | too_big

record PaginationRequest =
  page :: real
  size' :: real

definition page_schema :: "field_value \<Rightarrow> issue_code list + real" where
  \<comment> \<open>\<^verbatim>\<open>z.number().min(0).default(0)\<close>\<close>
  "page_schema v =
     (case v of
        Absent \<Rightarrow> Inr 0
      | NumberValue x \<Rightarrow>
          (let issues = (if x < 0 then [too_small] else [])
           in if issues = [] then Inr x else Inl issues)
      | NonFinite \<Rightarrow> Inl [invalid_type]
      | NonNumber \<Rightarrow> Inl [invalid_type])"

definition size_schema :: "field_value \<Rightarrow> issue_code list + real" where
  \<comment> \<open>\<^verbatim>\<open>z.number().min(1).max(100).default(10)\<close>\<close>
  "size_schema v =
     (case v of
        Absent \<Rightarrow> Inr 10
      | NumberValue x \<Rightarrow>
          (let issues = (if x < 1 then [too_small] else []) @ (if 100 < x then [too_big] else [])
           in if issues = [] then Inr x else Inl issues)
      | NonFinite \<Rightarrow> Inl [invalid_type]
      | NonNumber \<Rightarrow> Inl [invalid_type])"

definition issues_at :: "string \<Rightarrow> issue_code list + real \<Rightarrow> (string list \<times> issue_code) list" where
  "issues_at field r = (case r of Inl codes \<Rightarrow> map (\<lambda>c. ([field], c)) codes | Inr _ \<Rightarrow> [])"

definition PaginationRequestSchema ::
  "raw_input \<Rightarrow> (string list \<times> issue_code) list + PaginationRequest" where
  "PaginationRequestSchema input =
     (case input of
        NotAnObject \<Rightarrow> Inl [([], invalid_type)]
      | ObjectWith p s \<Rightarrow>
          (case (page_schema p, size_schema s) of
             (Inr p', Inr s') \<Rightarrow> Inr \<lparr>page = p', size' = s'\<rparr>
           | (rp, rs) \<Rightarrow> Inl (issues_at ''page'' rp @ issues_at ''size'' rs)))"

section \<open>Properties of chunkArray\<close>

lemma slice_nat: "slice xs (int a) (int b) = take (b - a) (drop a xs)"
proof (cases "a < length xs")
  case True
  then show ?thesis
    by (cases "b \<le> length xs") (simp_all add: slice_def relative_index_def min_def)
next
  case False
  then show ?thesis by (simp add: slice_def relative_index_def)
qed


lemma chunk_count_less:
  assumes "0 < n"
  shows "k * n < len \<longleftrightarrow> k < chunk_count len n"
proof -
  have "k < chunk_count len n \<longleftrightarrow> Suc k \<le> (len + n - 1) div n"
    by (simp add: chunk_count_def Suc_le_eq)
  also have "\<dots> \<longleftrightarrow> Suc k * n \<le> len + n - 1"
    using assms by (simp add: less_eq_div_iff_mult_less_eq)
  also have "\<dots> \<longleftrightarrow> k * n < len"
    using assms by auto
  finally show ?thesis by simp
qed

lemma slice_chunk: "slice xs (int a) (int a + int n) = take n (drop a xs)"
  using slice_nat [of xs a "a + n"] by simp

lemma chunkArray_loop_step:
  "chunkArray_loop xs (int n) (int a) acc =
     (if a < length xs then chunkArray_loop xs (int n) (int (a + n)) (acc @ [take n (drop a xs)])
      else Some acc)"
  by (subst chunkArray_loop.simps) (simp add: slice_chunk)

lemma chunkArray_loop_closed:
  assumes "0 < n"
  shows "chunkArray_loop xs (int n) (int (k * n)) acc =
         Some (acc @ map (\<lambda>j. take n (drop (j * n) xs)) [k..<chunk_count (length xs) n])"
proof (induction "chunk_count (length xs) n - k" arbitrary: k acc)
  case 0
  then have "\<not> k * n < length xs"
    using chunk_count_less [OF assms, of k "length xs"] by simp
  with 0 show ?case
    by (subst chunkArray_loop_step) simp
next
  case (Suc d)
  then have less: "k < chunk_count (length xs) n" by simp
  then have lt: "k * n < length xs"
    using chunk_count_less [OF assms] by simp
  have step: "k * n + n = Suc k * n" by simp
  have IH: "chunkArray_loop xs (int n) (int (Suc k * n)) (acc @ [take n (drop (k * n) xs)]) =
        Some ((acc @ [take n (drop (k * n) xs)]) @
              map (\<lambda>j. take n (drop (j * n) xs)) [Suc k..<chunk_count (length xs) n])"
    using Suc by (intro Suc.hyps(1)) simp
  have "chunkArray_loop xs (int n) (int (k * n)) acc =
        chunkArray_loop xs (int n) (int (Suc k * n)) (acc @ [take n (drop (k * n) xs)])"
    by (subst chunkArray_loop_step) (simp only: lt if_True step)
  also note IH
  finally show ?case
    by (simp add: upt_conv_Cons [OF less])
qed

lemma chunkArray_closed:
  "0 < n \<Longrightarrow> chunkArray xs (int n) = Some (map (\<lambda>j. take n (drop (j * n) xs)) [0..<chunk_count (length xs) n])"
  using chunkArray_loop_closed [of n xs 0 "[]"] by (simp add: chunkArray_def)

lemma concat_chunks: "concat (map (\<lambda>j. take n (drop (j * n) xs)) [0..<m]) = take (m * n) xs"
proof (induction m)
  case 0
  show ?case by simp
next
  case (Suc m)
  have "take (m * n) xs @ take n (drop (m * n) xs) = take (m * n + n) xs"
    by (simp add: take_add)
  with Suc show ?case by (simp add: add.commute)
qed

lemma chunk_count_covers: "0 < n \<Longrightarrow> len \<le> chunk_count len n * n"
  using chunk_count_less [of n "chunk_count len n" len] by simp

text \<open>
  Claim C3. For a chunk size of at least 1 \<^verbatim>\<open>chunkArray\<close> returns, and its chunks concatenated
  in order are the items again; every chunk but the last has exactly \<open>chunkSize\<close> elements;
  chunk \<open>i\<close> is the part of the items from position \<open>i * chunkSize\<close> up to (not including)
  \<open>min ((i + 1) * chunkSize) (length items)\<close>; and no items give no chunks.
\<close>

theorem chunkArray_partition:
  assumes "1 \<le> chunkSize"
  shows "\<exists>chunks. chunkArray items chunkSize = Some chunks
    \<and> concat chunks = items
    \<and> (\<forall>i. Suc i < length chunks \<longrightarrow> int (length (chunks ! i)) = chunkSize)
    \<and> (\<forall>i < length chunks. chunks ! i =
          take (min ((i + 1) * nat chunkSize) (length items) - i * nat chunkSize)
               (drop (i * nat chunkSize) items))
    \<and> (items = [] \<longrightarrow> chunks = [])"
proof -
  define n where "n = nat chunkSize"
  define m where "m = chunk_count (length items) n"
  define chunks where "chunks = map (\<lambda>j. take n (drop (j * n) items)) [0..<m]"
  have n: "0 < n" and cs: "chunkSize = int n"
    using assms by (simp_all add: n_def)
  have run: "chunkArray items chunkSize = Some chunks"
    unfolding cs chunks_def m_def using n by (rule chunkArray_closed)
  have "length items \<le> m * n"
    unfolding m_def using n by (rule chunk_count_covers)
  then have whole: "concat chunks = items"
    by (simp add: chunks_def concat_chunks)
  have full: "int (length (chunks ! i)) = chunkSize" if "Suc i < length chunks" for i
  proof -
    from that have "Suc i < m" by (simp add: chunks_def)
    then have "Suc i * n < length items"
      using chunk_count_less [OF n, of "Suc i" "length items"] by (simp add: m_def)
    then have "n \<le> length items - i * n" by simp
    with that show ?thesis
      by (simp add: chunks_def cs min_def)
  qed
  have part: "chunks ! i = take (min ((i + 1) * n) (length items) - i * n) (drop (i * n) items)"
    if "i < length chunks" for i
  proof -
    from that have "i < m" by (simp add: chunks_def)
    then have "i * n < length items"
      using chunk_count_less [OF n, of i "length items"] by (simp add: m_def)
    then have "take n (drop (i * n) items) =
               take (min ((i + 1) * n) (length items) - i * n) (drop (i * n) items)"
      by (cases "(i + 1) * n \<le> length items") (simp_all add: min_def)
    with \<open>i < m\<close> show ?thesis by (simp add: chunks_def)
  qed
  have none: "chunks = []" if "items = []"
    using that n by (simp add: chunks_def m_def chunk_count_def)
  from run whole full part none show ?thesis
    unfolding n_def [symmetric] by blast
qed

theorem chunkArray_partition_witness:
  "(1::int) \<le> 2 \<and> chunkArray [1, 2, 3, 4, 5 :: int] 2 = Some [[1, 2], [3, 4], [5]]
   \<and> (\<exists>chunks. chunkArray [1, 2, 3, 4, 5 :: int] 2 = Some chunks \<and> concat chunks = [1, 2, 3, 4, 5])"
proof -
  have small: "(1::int) \<le> 2" by simp
  have run: "chunkArray [1, 2, 3, 4, 5 :: int] 2 = Some [[1, 2], [3, 4], [5]]"
    by (simp add: chunkArray_def chunkArray_loop.simps slice_def relative_index_def)
  from chunkArray_partition [OF small, of "[1, 2, 3, 4, 5 :: int]"] small run show ?thesis
    by blast
qed

section \<open>Properties of the wave loop\<close>

lemma set_rejections: "set (rejections ps) = {e. \<exists>p \<in> set ps. outcome p = Inl e}"
  by (induction ps) (auto split: sum.splits)

lemma rejections_append [simp]: "rejections (ps @ qs) = rejections ps @ rejections qs"
  by (induction ps) (simp_all split: sum.splits)

lemma fulfilments_append [simp]: "fulfilments (ps @ qs) = fulfilments ps @ fulfilments qs"
  by (induction ps) (simp_all split: sum.splits)

lemma rejections_sort_key: "set (rejections (sort_key k ps)) = set (rejections ps)"
  by (simp add: set_rejections)

lemma rejections_sort_key_Nil: "rejections (sort_key k ps) = [] \<longleftrightarrow> rejections ps = []"
  using rejections_sort_key [of k ps] by (metis set_empty)

lemma fulfilments_outcomes: "rejections ps = [] \<Longrightarrow> map Inr (fulfilments ps) = map outcome ps"
  by (induction ps) (simp_all split: sum.splits)

lemma Promise_all_fulfils:
  assumes "rejections ps = []"
  shows "fst (Promise_all ps st) = Inr (fulfilments ps)"
proof -
  from assms have "rejections (sort_key settledAt ps) = []"
    by (simp only: rejections_sort_key_Nil)
  then show ?thesis
    by (simp add: Promise_all_def Let_def)
qed

lemma Promise_all_rejects:
  assumes "rejections ps \<noteq> []"
  shows "\<exists>e \<in> set (rejections ps). fst (Promise_all ps st) = Inl e"
proof -
  from assms have "rejections (sort_key settledAt ps) \<noteq> []"
    by (simp only: rejections_sort_key_Nil not_False_eq_True)
  then obtain e es where split: "rejections (sort_key settledAt ps) = e # es"
    by (cases "rejections (sort_key settledAt ps)") auto
  then have "e \<in> set (rejections (sort_key settledAt ps))" by simp
  then have "e \<in> set (rejections ps)" by (simp only: rejections_sort_key)
  moreover from split have "fst (Promise_all ps st) = Inl e"
    by (simp add: Promise_all_def Let_def)
  ultimately show ?thesis by blast
qed

lemma slice_batch: "slice xs (int a) (int a + int m) = take m (drop a xs)"
  using slice_nat [of xs a "a + m"] by simp

lemma processChunks_loop_step:
  "processChunks_loop chunks f (int m) (int a) results calls st =
     (if a < length chunks
      then (case Promise_all (map f (take m (drop a chunks))) st of
              (Inl e, st') \<Rightarrow> Some (Inl e, calls @ take m (drop a chunks), st')
            | (Inr batchResults, st') \<Rightarrow>
                processChunks_loop chunks f (int m) (int a + int m)
                  (results @ batchResults) (calls @ take m (drop a chunks)) st')
      else Some (Inr results, calls, st))"
  by (subst processChunks_loop.simps) (simp add: slice_batch Let_def)

lemma processChunks_loop_runs:
  assumes "0 < m"
  shows "\<exists>res n st'.
           processChunks_loop chunks f (int m) (int a) results calls st =
             Some (res, calls @ take n (drop a chunks), st') \<and>
           (case res of
              Inr rs \<Rightarrow> rejections (map f (drop a chunks)) = [] \<and>
                        rs = results @ fulfilments (map f (drop a chunks)) \<and>
                        length chunks - a \<le> n
            | Inl e \<Rightarrow> e \<in> set (rejections (map f (take n (drop a chunks)))))"
proof (induction "length chunks - a" arbitrary: a results calls st rule: less_induct)
  case less
  show ?case
  proof (cases "a < length chunks")
    case False
    then show ?thesis
      by (subst processChunks_loop_step) (auto intro!: exI [of _ 0])
  next
    case True
    define batch where "batch = take m (drop a chunks)"
    define rest where "rest = drop (a + m) chunks"
    have parts: "drop a chunks = batch @ rest"
      unfolding batch_def rest_def by (metis append_take_drop_id drop_drop add.commute)
    obtain r st1 where wave: "Promise_all (map f batch) st = (r, st1)"
      by (cases "Promise_all (map f batch) st")
    show ?thesis
    proof (cases "rejections (map f batch) = []")
      case False
      then obtain e where e: "e \<in> set (rejections (map f batch))" and "r = Inl e"
        using Promise_all_rejects [of "map f batch" st] wave by auto
      with True wave have "processChunks_loop chunks f (int m) (int a) results calls st =
          Some (Inl e, calls @ take m (drop a chunks), st1)"
        by (subst processChunks_loop_step) (simp add: batch_def)
      with e show ?thesis
        by (auto simp: batch_def intro!: exI [of _ m])
    next
      case ok: True
      then have r: "r = Inr (fulfilments (map f batch))"
        using Promise_all_fulfils [of "map f batch" st] wave by simp
      have unfold: "processChunks_loop chunks f (int m) (int a) results calls st =
          processChunks_loop chunks f (int m) (int (a + m))
            (results @ fulfilments (map f batch)) (calls @ batch) st1"
        using True wave r unfolding of_nat_add
        by (subst processChunks_loop_step) (simp add: batch_def)
      have "length chunks - (a + m) < length chunks - a"
        using True assms by simp
      from less [OF this, of "results @ fulfilments (map f batch)" "calls @ batch" st1]
      obtain res n st' where
        run: "processChunks_loop chunks f (int m) (int (a + m))
                (results @ fulfilments (map f batch)) (calls @ batch) st1 =
              Some (res, (calls @ batch) @ take n rest, st')" and
        post: "(case res of
              Inr rs \<Rightarrow> rejections (map f rest) = [] \<and>
                        rs = (results @ fulfilments (map f batch)) @ fulfilments (map f rest) \<and>
                        length chunks - (a + m) \<le> n
            | Inl e \<Rightarrow> e \<in> set (rejections (map f (take n rest))))"
        unfolding rest_def by blast
      have len: "length batch = min m (length chunks - a)"
        by (simp add: batch_def)
      have log: "(calls @ batch) @ take n rest = calls @ take (length batch + n) (drop a chunks)"
        by (simp add: parts)
      have "case res of
              Inr rs \<Rightarrow> rejections (map f (drop a chunks)) = [] \<and>
                        rs = results @ fulfilments (map f (drop a chunks)) \<and>
                        length chunks - a \<le> length batch + n
            | Inl e \<Rightarrow> e \<in> set (rejections (map f (take (length batch + n) (drop a chunks))))"
        using post ok len by (cases res) (auto simp: parts)
      moreover have "processChunks_loop chunks f (int m) (int a) results calls st =
          Some (res, calls @ take (length batch + n) (drop a chunks), st')"
        using run unfold log by simp
      ultimately show ?thesis by blast
    qed
  qed
qed

section \<open>Properties of the page loop\<close>

lemma insort_key_map:
  "insort_key k (f x) (map f ys) = map f (insort_key (\<lambda>a. k (f a)) x ys)"
  by (induction ys) simp_all

lemma sort_key_map: "sort_key k (map f xs) = map f (sort_key (\<lambda>a. k (f a)) xs)"
  by (induction xs) (simp_all add: insort_key_map)

lemma Promise_all_state:
  "snd (Promise_all (map g ps) st) =
     foldl (\<lambda>s p. onSettled (g p) s) st (sort_key (\<lambda>p. settledAt (g p)) ps)"
  by (simp add: Promise_all_def Let_def sort_key_map foldl_map)

lemma upto_wave:
  assumes "i < t" "0 < m"
  shows "[i..t - 1] = [i..min (i + m) t - 1] @ [i + m..t - 1]"
proof (cases "i + m < t")
  case True
  then have "[i..t - 1] = [i..(i + m) - 1] @ [i + m..t - 1]"
    using assms by (intro upto_split1) simp_all
  with True show ?thesis by (simp add: min_def)
next
  case False
  then show ?thesis by (simp add: min_def)
qed

lemma processPaginated_loop_step:
  "processPaginated_loop tc ps readPage m (Num t) i allResults calls st =
     (if i < t
      then (case Promise_all
                   (map (\<lambda>p. readPage (p * ps) (min ps (tc - p * ps))) [i..min (i + m) t - 1]) st of
              (Inl e, st') \<Rightarrow>
                Some (Inl e,
                      calls @ map (\<lambda>p. (p * ps, min ps (tc - p * ps))) [i..min (i + m) t - 1], st')
            | (Inr batchResults, st') \<Rightarrow>
                processPaginated_loop tc ps readPage m (Num t) (i + m)
                  (allResults @ concat batchResults)
                  (calls @ map (\<lambda>p. (p * ps, min ps (tc - p * ps))) [i..min (i + m) t - 1]) st')
      else Some (Inr allResults, calls, st))"
  by (subst processPaginated_loop.simps)
     (simp add: Let_def comp_def split: prod.split sum.split)

lemma processPaginated_loop_runs:
  fixes readPage :: "int \<Rightarrow> int \<Rightarrow> ('s, 'e, 'r list) promise" and tc ps :: int
  assumes "0 < m"
  defines "g \<equiv> \<lambda>p. readPage (p * ps) (min ps (tc - p * ps))"
  defines "request \<equiv> \<lambda>p. (p * ps, min ps (tc - p * ps))"
  shows "\<exists>res n st'.
           processPaginated_loop tc ps readPage m (Num t) i allResults calls st =
             Some (res, calls @ map request (take n [i..t - 1]), st') \<and>
           (case res of
              Inr rs \<Rightarrow> rejections (map g [i..t - 1]) = [] \<and>
                        rs = allResults @ concat (fulfilments (map g [i..t - 1])) \<and>
                        length [i..t - 1] \<le> n \<and>
                        (\<exists>order. mset order = mset [i..t - 1] \<and>
                                 st' = foldl (\<lambda>s p. onSettled (g p) s) st order)
            | Inl e \<Rightarrow> e \<in> set (rejections (map g (take n [i..t - 1]))))"
proof (induction "nat (t - i)" arbitrary: i allResults calls st rule: less_induct)
  case less
  show ?case
  proof (cases "i < t")
    case False
    then have "[i..t - 1] = []" by simp
    with False show ?thesis
      by (subst processPaginated_loop_step) (auto intro!: exI [of _ 0] exI [of _ "[]"])
  next
    case True
    define batch where "batch = [i..min (i + m) t - 1]"
    define rest where "rest = [i + m..t - 1]"
    have parts: "[i..t - 1] = batch @ rest"
      unfolding batch_def rest_def using True assms(1) by (rule upto_wave)
    obtain r st1 where wave: "Promise_all (map g batch) st = (r, st1)"
      by (cases "Promise_all (map g batch) st")
    have st1: "st1 = foldl (\<lambda>s p. onSettled (g p) s) st (sort_key (\<lambda>p. settledAt (g p)) batch)"
      using Promise_all_state [of g batch st] wave by simp
    show ?thesis
    proof (cases "rejections (map g batch) = []")
      case False
      then obtain e where e: "e \<in> set (rejections (map g batch))" and "r = Inl e"
        using Promise_all_rejects [of "map g batch" st] wave by auto
      with True wave have "processPaginated_loop tc ps readPage m (Num t) i allResults calls st =
          Some (Inl e, calls @ map request batch, st1)"
        by (subst processPaginated_loop_step) (simp add: batch_def g_def request_def)
      moreover have "take (length batch) [i..t - 1] = batch"
        by (simp add: parts)
      ultimately show ?thesis
        using e by (auto intro!: exI [of _ "length batch"])
    next
      case ok: True
      then have r: "r = Inr (fulfilments (map g batch))"
        using Promise_all_fulfils [of "map g batch" st] wave by simp
      have unfold: "processPaginated_loop tc ps readPage m (Num t) i allResults calls st =
          processPaginated_loop tc ps readPage m (Num t) (i + m)
            (allResults @ concat (fulfilments (map g batch))) (calls @ map request batch) st1"
        using True wave r
        by (subst processPaginated_loop_step) (simp add: batch_def g_def request_def)
      have "nat (t - (i + m)) < nat (t - i)"
        using True assms(1) by simp
      from less [OF this, of "allResults @ concat (fulfilments (map g batch))"
                   "calls @ map request batch" st1]
      obtain res n st' where
        run: "processPaginated_loop tc ps readPage m (Num t) (i + m)
                (allResults @ concat (fulfilments (map g batch))) (calls @ map request batch) st1 =
              Some (res, (calls @ map request batch) @ map request (take n rest), st')" and
        post: "(case res of
              Inr rs \<Rightarrow> rejections (map g rest) = [] \<and>
                        rs = (allResults @ concat (fulfilments (map g batch))) @
                             concat (fulfilments (map g rest)) \<and>
                        length rest \<le> n \<and>
                        (\<exists>order. mset order = mset rest \<and>
                                 st' = foldl (\<lambda>s p. onSettled (g p) s) st1 order)
            | Inl e \<Rightarrow> e \<in> set (rejections (map g (take n rest))))"
        unfolding rest_def by blast
      have log: "(calls @ map request batch) @ map request (take n rest) =
                 calls @ map request (take (length batch + n) [i..t - 1])"
        by (simp add: parts)
      have "case res of
              Inr rs \<Rightarrow> rejections (map g [i..t - 1]) = [] \<and>
                        rs = allResults @ concat (fulfilments (map g [i..t - 1])) \<and>
                        length [i..t - 1] \<le> length batch + n \<and>
                        (\<exists>order. mset order = mset [i..t - 1] \<and>
                                 st' = foldl (\<lambda>s p. onSettled (g p) s) st order)
            | Inl e \<Rightarrow> e \<in> set (rejections (map g (take (length batch + n) [i..t - 1])))"
      proof (cases res)
        case (Inl e)
        with post show ?thesis by (simp add: parts)
      next
        case (Inr rs)
        with post obtain order where
          order: "mset order = mset rest" "st' = foldl (\<lambda>s p. onSettled (g p) s) st1 order"
          by auto
        have "mset (sort_key (\<lambda>p. settledAt (g p)) batch @ order) = mset [i..t - 1]"
          using order(1) by (simp add: parts)
        moreover have "st' = foldl (\<lambda>s p. onSettled (g p) s) st (sort_key (\<lambda>p. settledAt (g p)) batch @ order)"
          using order(2) st1 by simp
        ultimately have "\<exists>order. mset order = mset [i..t - 1] \<and>
                                 st' = foldl (\<lambda>s p. onSettled (g p) s) st order"
          by blast
        with Inr post ok show ?thesis by (simp add: parts)
      qed
      moreover have "processPaginated_loop tc ps readPage m (Num t) i allResults calls st =
          Some (res, calls @ map request (take (length batch + n) [i..t - 1]), st')"
        using run unfold log by simp
      ultimately show ?thesis by blast
    qed
  qed
qed

section \<open>The schedulers return\<close>

lemma ceil_quotient_ceiling:
  "b \<noteq> 0 \<Longrightarrow> ceil_quotient a b = Num \<lceil>real_of_int a / real_of_int b\<rceil>"
proof -
  assume "b \<noteq> 0"
  have "\<lceil>real_of_int a / real_of_int b\<rceil> = - \<lfloor>real_of_int (- a) / real_of_int b\<rfloor>"
    by (simp add: ceiling_def)
  also have "\<dots> = - ((- a) div b)"
    by (simp only: floor_divide_of_int_eq)
  finally show ?thesis using \<open>b \<noteq> 0\<close> by (simp add: ceil_quotient_def)
qed

lemma processChunksInParallel_runs:
  assumes "1 \<le> chunkSize" "1 \<le> maxConcurrency"
  shows "\<exists>chunks res n st'.
           chunkArray items chunkSize = Some chunks \<and>
           processChunksInParallel items chunkSize f maxConcurrency st =
             Some (res, take n chunks, st') \<and>
           (case res of
              Inr rs \<Rightarrow> rejections (map f chunks) = [] \<and> rs = fulfilments (map f chunks) \<and>
                        length chunks \<le> n
            | Inl e \<Rightarrow> e \<in> set (rejections (map f (take n chunks))))"
proof -
  obtain chunks where chunks: "chunkArray items chunkSize = Some chunks"
    using chunkArray_closed [of "nat chunkSize" items] assms(1) by auto
  have m: "0 < nat maxConcurrency" "maxConcurrency = int (nat maxConcurrency)"
    using assms(2) by simp_all
  have "processChunks_loop chunks f maxConcurrency 0 [] [] st =
        processChunks_loop chunks f (int (nat maxConcurrency)) (int 0) [] [] st"
    using m(2) by simp
  with processChunks_loop_runs [OF m(1), of chunks f 0 "[]" "[]" st]
  obtain res n st' where
    run: "processChunks_loop chunks f maxConcurrency 0 [] [] st =
          Some (res, [] @ take n (drop 0 chunks), st')" and
    post: "case res of
              Inr rs \<Rightarrow> rejections (map f (drop 0 chunks)) = [] \<and>
                        rs = [] @ fulfilments (map f (drop 0 chunks)) \<and>
                        length chunks - 0 \<le> n
            | Inl e \<Rightarrow> e \<in> set (rejections (map f (take n (drop 0 chunks))))"
    by metis
  from post have "case res of
              Inr rs \<Rightarrow> rejections (map f chunks) = [] \<and> rs = fulfilments (map f chunks) \<and>
                        length chunks \<le> n
            | Inl e \<Rightarrow> e \<in> set (rejections (map f (take n chunks)))"
    by (cases res) simp_all
  with chunks run show ?thesis
    by (auto simp: processChunksInParallel_def)
qed

lemma processPaginatedInParallel_runs:
  fixes readPage :: "int \<Rightarrow> int \<Rightarrow> ('s, 'e, 'r list) promise" and totalCount pageSize :: int
  assumes "1 \<le> pageSize" "1 \<le> maxConcurrency"
  defines "g \<equiv> \<lambda>p. readPage (p * pageSize) (min pageSize (totalCount - p * pageSize))"
  defines "request \<equiv> \<lambda>p. (p * pageSize, min pageSize (totalCount - p * pageSize))"
  defines "t \<equiv> \<lceil>real_of_int totalCount / real_of_int pageSize\<rceil>"
  shows "\<exists>res n st'.
           processPaginatedInParallel totalCount pageSize readPage maxConcurrency st =
             Some (res, map request (take n [0..t - 1]), st') \<and>
           (case res of
              Inr rs \<Rightarrow> rejections (map g [0..t - 1]) = [] \<and>
                        rs = concat (fulfilments (map g [0..t - 1])) \<and>
                        length [0..t - 1] \<le> n \<and>
                        (\<exists>order. mset order = mset [0..t - 1] \<and>
                                 st' = foldl (\<lambda>s p. onSettled (g p) s) st order)
            | Inl e \<Rightarrow> e \<in> set (rejections (map g (take n [0..t - 1]))))"
proof -
  have tp: "ceil_quotient totalCount pageSize = Num t"
    unfolding t_def using assms(1) by (intro ceil_quotient_ceiling) simp
  have m: "0 < maxConcurrency" using assms(2) by simp
  from processPaginated_loop_runs [OF m, of totalCount pageSize readPage t 0 "[]" "[]" st]
  obtain res n st' where
    run: "processPaginated_loop totalCount pageSize readPage maxConcurrency (Num t) 0 [] [] st =
          Some (res, map request (take n [0..t - 1]), st')" and
    post: "case res of
              Inr rs \<Rightarrow> rejections (map g [0..t - 1]) = [] \<and>
                        rs = [] @ concat (fulfilments (map g [0..t - 1])) \<and>
                        length [0..t - 1] \<le> n \<and>
                        (\<exists>order. mset order = mset [0..t - 1] \<and>
                                 st' = foldl (\<lambda>s p. onSettled (g p) s) st order)
            | Inl e \<Rightarrow> e \<in> set (rejections (map g (take n [0..t - 1])))"
    unfolding g_def request_def by auto
  from post have "case res of
              Inr rs \<Rightarrow> rejections (map g [0..t - 1]) = [] \<and>
                        rs = concat (fulfilments (map g [0..t - 1])) \<and>
                        length [0..t - 1] \<le> n \<and>
                        (\<exists>order. mset order = mset [0..t - 1] \<and>
                                 st' = foldl (\<lambda>s p. onSettled (g p) s) st order)
            | Inl e \<Rightarrow> e \<in> set (rejections (map g (take n [0..t - 1])))"
    by (cases res) simp_all
  with run show ?thesis
    unfolding processPaginatedInParallel_def Let_def tp by blast
qed

section \<open>Claims about processChunksInParallel\<close>

lemma rejections_Nil_iff: "rejections ps = [] \<longleftrightarrow> (\<forall>p \<in> set ps. \<not> isl (outcome p))"
  by (induction ps) (auto split: sum.splits)

lemma rejections_take: "set (rejections (take n ps)) \<subseteq> set (rejections ps)"
  by (auto simp: set_rejections dest: in_set_takeD)

lemma chunkArray_example: "chunkArray [1, 2, 3, 4, 5 :: int] 2 = Some [[1, 2], [3, 4], [5]]"
  by (simp add: chunkArray_def chunkArray_loop.simps slice_def relative_index_def)

lemma processChunksInParallel_example:
  "processChunksInParallel [1, 2, 3, 4, 5] 2 sumOfChunk 2 () =
     Some (Inr [3, 7, 5], [[1, 2], [3, 4], [5]], ())"
  by code_simp

lemma processPaginatedInParallel_example:
  "processPaginatedInParallel 10 3 rangePage 2 () =
     Some (Inr [0, 1, 2, 3, 4, 5, 6, 7, 8, 9], [(0, 3), (3, 3), (6, 3), (9, 1)], ())"
  by code_simp

lemma failOnSeven_example:
  "processChunksInParallel [1, 2, 3, 4, 5] 2 failOnSeven 2 () =
     Some (Inl ''seven'', [[1, 2], [3, 4]], ())"
  by code_simp

text \<open>
  Claim C1. With chunk size, page size and concurrency of at least 1 both schedulers return.
  When \<^verbatim>\<open>processChunksInParallel\<close> returns a result sequence, it has one result per chunk
  of \<^verbatim>\<open>chunkArray\<close>, and result \<open>i\<close> is the value with which \<^verbatim>\<open>processChunk\<close> fulfilled on
  chunk \<open>i\<close>; it does return one when every chunk is fulfilled. The settling times of the
  promises do not occur in the statement: the order is that of the chunks whatever the order
  of completion. Likewise the result of \<^verbatim>\<open>processPaginatedInParallel\<close> is the concatenation
  of the page results in the order of the page indexes.
\<close>

theorem results_in_chunk_order:
  fixes processChunk :: "'a list \<Rightarrow> ('s, 'e, 'r) promise"
    and readPage :: "int \<Rightarrow> int \<Rightarrow> ('u, 'f, 't list) promise"
  assumes "1 \<le> chunkSize" "1 \<le> pageSize" "1 \<le> maxConcurrency"
  shows "(\<exists>chunks res calls st'.
           chunkArray items chunkSize = Some chunks \<and>
           processChunksInParallel items chunkSize processChunk maxConcurrency st =
             Some (res, calls, st') \<and>
           ((\<forall>c \<in> set chunks. \<not> isl (outcome (processChunk c))) \<longrightarrow> \<not> isl res) \<and>
           (\<forall>results. res = Inr results \<longrightarrow>
              map Inr results = map (\<lambda>c. outcome (processChunk c)) chunks)) \<and>
         (\<exists>res calls st'.
           processPaginatedInParallel totalCount pageSize readPage maxConcurrency st2 =
             Some (res, calls, st') \<and>
           ((\<forall>p \<in> {0..<\<lceil>real_of_int totalCount / real_of_int pageSize\<rceil>}.
               \<not> isl (outcome (readPage (p * pageSize) (min pageSize (totalCount - p * pageSize)))))
            \<longrightarrow> \<not> isl res) \<and>
           (\<forall>results. res = Inr results \<longrightarrow>
              (\<exists>pageResults. results = concat pageResults \<and>
                 map Inr pageResults =
                 map (\<lambda>p. outcome (readPage (p * pageSize) (min pageSize (totalCount - p * pageSize))))
                     [0..\<lceil>real_of_int totalCount / real_of_int pageSize\<rceil> - 1])))"
    (is "?chunked \<and> ?paged")
proof (rule conjI)
  from processChunksInParallel_runs [OF assms(1) assms(3), of items processChunk st]
  obtain chunks res n st' where
    chunks: "chunkArray items chunkSize = Some chunks" and
    run: "processChunksInParallel items chunkSize processChunk maxConcurrency st =
            Some (res, take n chunks, st')" and
    post: "case res of
              Inr rs \<Rightarrow> rejections (map processChunk chunks) = [] \<and>
                        rs = fulfilments (map processChunk chunks) \<and> length chunks \<le> n
            | Inl e \<Rightarrow> e \<in> set (rejections (map processChunk (take n chunks)))"
    by blast
  have "\<not> isl res" if "\<forall>c \<in> set chunks. \<not> isl (outcome (processChunk c))"
  proof (cases res)
    case (Inl e)
    with post have "e \<in> set (rejections (map processChunk chunks))"
      using rejections_take [of n "map processChunk chunks"] by (auto simp: take_map)
    with that show ?thesis by (auto simp: set_rejections)
  next
    case (Inr rs)
    then show ?thesis by simp
  qed
  moreover have "map Inr results = map (\<lambda>c. outcome (processChunk c)) chunks"
    if "res = Inr results" for results
    using post that fulfilments_outcomes [of "map processChunk chunks"] by (simp add: comp_def)
  ultimately show ?chunked
    using chunks run by blast
next
  define t where "t = \<lceil>real_of_int totalCount / real_of_int pageSize\<rceil>"
  define g where "g = (\<lambda>p. readPage (p * pageSize) (min pageSize (totalCount - p * pageSize)))"
  from processPaginatedInParallel_runs [OF assms(2) assms(3), of totalCount readPage st2]
  obtain res n st' where
    run: "processPaginatedInParallel totalCount pageSize readPage maxConcurrency st2 =
            Some (res, map (\<lambda>p. (p * pageSize, min pageSize (totalCount - p * pageSize)))
                           (take n [0..t - 1]), st')" and
    post: "case res of
              Inr rs \<Rightarrow> rejections (map g [0..t - 1]) = [] \<and>
                        rs = concat (fulfilments (map g [0..t - 1])) \<and>
                        length [0..t - 1] \<le> n \<and>
                        (\<exists>order. mset order = mset [0..t - 1] \<and>
                                 st' = foldl (\<lambda>s p. onSettled (g p) s) st2 order)
            | Inl e \<Rightarrow> e \<in> set (rejections (map g (take n [0..t - 1])))"
    unfolding t_def g_def by blast
  have "\<not> isl res" if "\<forall>p \<in> {0..<t}. \<not> isl (outcome (g p))"
  proof (cases res)
    case (Inl e)
    with post have "e \<in> set (rejections (map g [0..t - 1]))"
      using rejections_take [of n "map g [0..t - 1]"] by (auto simp: take_map)
    then obtain p where p: "p \<in> {0..<t}" "outcome (g p) = Inl e"
      by (auto simp: set_rejections)
    with that have "\<not> isl (outcome (g p))" by blast
    with p show ?thesis by simp
  next
    case (Inr rs)
    then show ?thesis by simp
  qed
  moreover have "\<exists>pageResults. results = concat pageResults \<and>
                 map Inr pageResults = map (\<lambda>p. outcome (g p)) [0..t - 1]"
    if "res = Inr results" for results
    using post that fulfilments_outcomes [of "map g [0..t - 1]"] by (auto simp: comp_def)
  ultimately show ?paged
    using run unfolding t_def g_def by blast
qed

theorem results_in_chunk_order_witness:
  "(1::int) \<le> 2 \<and> (1::int) \<le> 3 \<and>
   processChunksInParallel [1, 2, 3, 4, 5] 2 sumOfChunk 2 () =
     Some (Inr [3, 7, 5], [[1, 2], [3, 4], [5]], ()) \<and>
   map Inr [3, 7, 5] = map (\<lambda>c. outcome (sumOfChunk c)) [[1, 2], [3, 4], [5]] \<and>
   processPaginatedInParallel 10 3 rangePage 2 () =
     Some (Inr [0, 1, 2, 3, 4, 5, 6, 7, 8, 9], [(0, 3), (3, 3), (6, 3), (9, 1)], ()) \<and>
   (\<exists>pageResults. [0, 1, 2, 3, 4, 5, 6, 7, 8, 9] = concat pageResults \<and>
      map Inr pageResults =
      map (\<lambda>p. outcome (rangePage (p * 3) (min 3 (10 - p * 3)))) [0..4 - 1])"
proof -
  have two: "(1::int) \<le> 2" and three: "(1::int) \<le> 3" by simp_all
  have pages: "\<lceil>real_of_int 10 / real_of_int 3\<rceil> = 4" by simp
  note inst = results_in_chunk_order [OF two three two, of "[1, 2, 3, 4, 5]" sumOfChunk "()"
    10 rangePage "()", unfolded pages]
  from inst [THEN conjunct1] have "map Inr [3, 7, 5] =
      map (\<lambda>c. outcome (sumOfChunk c)) [[1, 2], [3, 4], [5 :: int]]"
    unfolding chunkArray_example processChunksInParallel_example by auto
  moreover from inst [THEN conjunct2] have "\<exists>pageResults. [0, 1, 2, 3, 4, 5, 6, 7, 8, 9] = concat pageResults \<and>
      map Inr pageResults =
      map (\<lambda>p. outcome (rangePage (p * 3) (min 3 (10 - p * 3)))) [0..4 - 1]"
    unfolding processPaginatedInParallel_example by auto
  ultimately show ?thesis
    using two three processChunksInParallel_example processPaginatedInParallel_example
    by blast
qed

lemma Promise_all_first_rejection:
  assumes "rejections ps \<noteq> []"
  shows "Promise_all ps st =
    (Inl (hd (rejections (sort_key settledAt ps))),
     foldl (\<lambda>s p. onSettled p s) st (sort_key settledAt ps))"
proof -
  from assms have "rejections (sort_key settledAt ps) \<noteq> []"
    by (simp only: rejections_sort_key_Nil not_False_eq_True)
  then obtain e es where "rejections (sort_key settledAt ps) = e # es"
    by (cases "rejections (sort_key settledAt ps)") auto
  then show ?thesis by (simp add: Promise_all_def Let_def)
qed

lemma Promise_all_all_fulfilled:
  assumes "rejections ps = []"
  shows "Promise_all ps st =
    (Inr (fulfilments ps), foldl (\<lambda>s p. onSettled p s) st (sort_key settledAt ps))"
proof -
  from assms have "rejections (sort_key settledAt ps) = []"
    by (simp only: rejections_sort_key_Nil)
  then show ?thesis by (simp add: Promise_all_def Let_def)
qed

lemma first_rejection_of_sorted:
  assumes "sorted (map settledAt xs)" "rejections xs \<noteq> []"
  shows "\<exists>p \<in> set xs. outcome p = Inl (hd (rejections xs)) \<and>
           (\<forall>q \<in> set xs. isl (outcome q) \<longrightarrow> settledAt p \<le> settledAt q)"
  using assms
proof (induction xs)
  case Nil
  then show ?case by simp
next
  case (Cons x xs)
  show ?case
  proof (cases "outcome x")
    case (Inl e)
    with Cons.prems(1) show ?thesis by auto
  next
    case (Inr v)
    with Cons.prems have "sorted (map settledAt xs)" "rejections xs \<noteq> []" by simp_all
    from Cons.IH [OF this] Inr show ?thesis by auto
  qed
qed

lemma first_rejection_earliest:
  assumes "rejections ps \<noteq> []"
  shows "\<exists>p \<in> set ps. outcome p = Inl (hd (rejections (sort_key settledAt ps))) \<and>
           (\<forall>q \<in> set ps. isl (outcome q) \<longrightarrow> settledAt p \<le> settledAt q)"
proof -
  have "sorted (map settledAt (sort_key settledAt ps))" by simp
  moreover from assms have "rejections (sort_key settledAt ps) \<noteq> []"
    by (simp only: rejections_sort_key_Nil not_False_eq_True)
  ultimately show ?thesis
    using first_rejection_of_sorted [of "sort_key settledAt ps"] by simp
qed

lemma processChunks_loop_first_rejection:
  assumes "0 < m" "rejections (map f (drop a chunks)) \<noteq> []"
  shows "\<exists>k. rejections (map f (take (k * m) (drop a chunks))) = [] \<and>
           rejections (map f (take m (drop (a + k * m) chunks))) \<noteq> [] \<and>
           processChunks_loop chunks f (int m) (int a) results calls st =
             Some (Inl (hd (rejections (sort_key settledAt
                             (map f (take m (drop (a + k * m) chunks)))))),
                   calls @ take (k * m + m) (drop a chunks),
                   foldl (\<lambda>s p. onSettled p s) st
                     (concat (map (\<lambda>j. sort_key settledAt (map f (take m (drop (a + j * m) chunks))))
                                  [0..<Suc k])))"
  using assms(2)
proof (induction "length chunks - a" arbitrary: a results calls st rule: less_induct)
  case less
  define batch where "batch = take m (drop a chunks)"
  define rest where "rest = drop (a + m) chunks"
  have parts: "drop a chunks = batch @ rest"
    unfolding batch_def rest_def by (metis append_take_drop_id drop_drop add.commute)
  from less.prems have inside: "a < length chunks" by (cases "a < length chunks") simp_all
  show ?case
  proof (cases "rejections (map f batch) = []")
    case False
    from Promise_all_first_rejection [OF False, of st] inside
    have "processChunks_loop chunks f (int m) (int a) results calls st =
        Some (Inl (hd (rejections (sort_key settledAt (map f batch)))), calls @ batch,
              foldl (\<lambda>s p. onSettled p s) st (sort_key settledAt (map f batch)))"
      by (subst processChunks_loop_step) (simp add: batch_def)
    with False show ?thesis
      by (intro exI [of _ 0]) (simp add: batch_def)
  next
    case True
    with less.prems have later: "rejections (map f rest) \<noteq> []"
      by (simp add: parts)
    then have "rest \<noteq> []" by auto
    then have full: "a + m < length chunks" by (simp add: rest_def)
    then have len: "length batch = m" by (simp add: batch_def)
    define st1 where "st1 = foldl (\<lambda>s p. onSettled p s) st (sort_key settledAt (map f batch))"
    have unfold: "processChunks_loop chunks f (int m) (int a) results calls st =
        processChunks_loop chunks f (int m) (int (a + m))
          (results @ fulfilments (map f batch)) (calls @ batch) st1"
      using Promise_all_all_fulfilled [OF True, of st] inside unfolding of_nat_add
      by (subst processChunks_loop_step) (simp add: batch_def st1_def)
    have "length chunks - (a + m) < length chunks - a"
      using inside assms(1) by simp
    from less.hyps [OF this later [unfolded rest_def],
        of "results @ fulfilments (map f batch)" "calls @ batch" st1]
    obtain k where
      before: "rejections (map f (take (k * m) rest)) = []" and
      wave: "rejections (map f (take m (drop (a + m + k * m) chunks))) \<noteq> []" and
      run: "processChunks_loop chunks f (int m) (int (a + m))
             (results @ fulfilments (map f batch)) (calls @ batch) st1 =
             Some (Inl (hd (rejections (sort_key settledAt
                             (map f (take m (drop (a + m + k * m) chunks)))))),
                   (calls @ batch) @ take (k * m + m) rest,
                   foldl (\<lambda>s p. onSettled p s) st1
                     (concat (map (\<lambda>j. sort_key settledAt
                                          (map f (take m (drop (a + m + j * m) chunks))))
                                  [0..<Suc k])))"
      unfolding rest_def by blast
    have idx: "a + m + j * m = a + Suc j * m" for j by simp
    have "rejections (map f (take (Suc k * m) (drop a chunks))) = []"
      using True before len by (simp add: parts)
    moreover have "rejections (map f (take m (drop (a + Suc k * m) chunks))) \<noteq> []"
      using wave unfolding idx .
    moreover have "(calls @ batch) @ take (k * m + m) rest =
        calls @ take (Suc k * m + m) (drop a chunks)"
      using len by (simp add: parts add.commute)
    moreover have "foldl (\<lambda>s p. onSettled p s) st1
          (concat (map (\<lambda>j. sort_key settledAt (map f (take m (drop (a + m + j * m) chunks))))
                       [0..<Suc k])) =
        foldl (\<lambda>s p. onSettled p s) st
          (concat (map (\<lambda>j. sort_key settledAt (map f (take m (drop (a + j * m) chunks))))
                       [0..<Suc (Suc k)]))"
      unfolding st1_def batch_def idx
      by (simp only: map_upt_Suc [of _ "Suc k"] concat.simps foldl_append) simp
    ultimately show ?thesis
      using run unfold by (intro exI [of _ "Suc k"]) (simp only: idx simp_thms)
  qed
qed

lemma rejectAll_example:
  "processChunksInParallel [1, 2, 3, 4] 2 rejectAll 2 () = Some (Inl 7, [[1, 2], [3, 4]], ())"
  by code_simp

text \<open>
  Claim C2 says that when a \<^verbatim>\<open>processChunk\<close> invocation rejects, the whole call fails with
  that same error. When two invocations of one wave reject, the call can fail with one
  reason only: here both chunks of the wave reject, \<open>[1, 2]\<close> with reason 3 and \<open>[3, 4]\<close>,
  which settles first, with reason 7, and the call fails with 7.
\<close>

theorem same_error_counterexample:
  "outcome (rejectAll [1, 2]) = Inl 3 \<and>
   processChunksInParallel [1, 2, 3, 4] 2 rejectAll 2 () = Some (Inl 7, [[1, 2], [3, 4]], ()) \<and>
   (3::int) \<noteq> 7"
  using rejectAll_example by (simp add: rejectAll_def)

text \<open>
  Claim C2 as amended. If \<^verbatim>\<open>processChunk\<close> rejects on some chunk, the whole call fails and
  returns no result sequence, whatever chunks of the same or of earlier waves are
  fulfilled. There is a first wave \<open>k\<close> with a rejection, the waves before it being
  fulfilled throughout; the error of the call is the reason of the rejection of that wave
  that settles first (of those settling at the same time, the first in chunk order), the
  reasons of the other rejections are dropped; \<^verbatim>\<open>processChunk\<close> has been invoked on the
  chunks of the waves up to \<open>k\<close> and on no later chunk; and the shared state is the one
  reached when the promises of these waves have settled, wave after wave.
\<close>

theorem first_rejection_fails_whole_call:
  fixes processChunk :: "'a list \<Rightarrow> ('s, 'e, 'r) promise"
  assumes "1 \<le> chunkSize" "1 \<le> maxConcurrency"
    and "chunkArray items chunkSize = Some chunks"
    and "c \<in> set chunks" "outcome (processChunk c) = Inl err"
  shows "\<exists>k e first.
    (\<forall>c' \<in> set (take (k * nat maxConcurrency) chunks). \<not> isl (outcome (processChunk c'))) \<and>
    first \<in> set (take (nat maxConcurrency) (drop (k * nat maxConcurrency) chunks)) \<and>
    outcome (processChunk first) = Inl e \<and>
    (\<forall>c' \<in> set (take (nat maxConcurrency) (drop (k * nat maxConcurrency) chunks)).
       isl (outcome (processChunk c')) \<longrightarrow>
       settledAt (processChunk first) \<le> settledAt (processChunk c')) \<and>
    e = hd (rejections (sort_key settledAt
          (map processChunk (take (nat maxConcurrency) (drop (k * nat maxConcurrency) chunks))))) \<and>
    processChunksInParallel items chunkSize processChunk maxConcurrency st =
      Some (Inl e, take (k * nat maxConcurrency + nat maxConcurrency) chunks,
            foldl (\<lambda>s p. onSettled p s) st
              (concat (map (\<lambda>j. sort_key settledAt
                                  (map processChunk
                                     (take (nat maxConcurrency) (drop (j * nat maxConcurrency) chunks))))
                           [0..<Suc k])))"
proof -
  define m where "m = nat maxConcurrency"
  have m: "0 < m" and mc: "maxConcurrency = int m" using assms(2) by (simp_all add: m_def)
  have "err \<in> set (rejections (map processChunk chunks))"
    using assms(4,5) by (auto simp: set_rejections)
  then have some: "rejections (map processChunk (drop 0 chunks)) \<noteq> []" by auto
  from processChunks_loop_first_rejection [OF m some, of "[]" "[]" st]
  obtain k where
    before: "rejections (map processChunk (take (k * m) chunks)) = []" and
    wave: "rejections (map processChunk (take m (drop (k * m) chunks))) \<noteq> []" and
    run: "processChunks_loop chunks processChunk (int m) (int 0) [] [] st =
             Some (Inl (hd (rejections (sort_key settledAt
                             (map processChunk (take m (drop (k * m) chunks)))))),
                   take (k * m + m) chunks,
                   foldl (\<lambda>s p. onSettled p s) st
                     (concat (map (\<lambda>j. sort_key settledAt
                                          (map processChunk (take m (drop (j * m) chunks))))
                                  [0..<Suc k])))"
    by auto
  define e where "e = hd (rejections (sort_key settledAt
                             (map processChunk (take m (drop (k * m) chunks)))))"
  from first_rejection_earliest [OF wave]
  obtain first where first: "first \<in> set (take m (drop (k * m) chunks))"
    "outcome (processChunk first) = Inl e"
    "\<forall>c' \<in> set (take m (drop (k * m) chunks)).
       isl (outcome (processChunk c')) \<longrightarrow> settledAt (processChunk first) \<le> settledAt (processChunk c')"
    unfolding e_def by auto
  from before have fulfilled: "\<forall>c' \<in> set (take (k * m) chunks). \<not> isl (outcome (processChunk c'))"
    by (simp add: rejections_Nil_iff)
  have "processChunksInParallel items chunkSize processChunk maxConcurrency st =
      Some (Inl e, take (k * m + m) chunks,
            foldl (\<lambda>s p. onSettled p s) st
              (concat (map (\<lambda>j. sort_key settledAt
                                  (map processChunk (take m (drop (j * m) chunks))))
                           [0..<Suc k])))"
    using run assms(3) by (simp add: processChunksInParallel_def mc e_def)
  with fulfilled first e_def show ?thesis
    unfolding m_def by blast
qed

theorem first_rejection_fails_whole_call_witness:
  "(1::int) \<le> 2 \<and> chunkArray [1, 2, 3, 4, 5 :: int] 2 = Some [[1, 2], [3, 4], [5]] \<and>
   [3, 4] \<in> set [[1, 2], [3, 4], [5 :: int]] \<and> outcome (failOnSeven [3, 4]) = Inl ''seven'' \<and>
   processChunksInParallel [1, 2, 3, 4, 5] 2 failOnSeven 2 () =
     Some (Inl ''seven'', [[1, 2], [3, 4]], ()) \<and>
   (\<exists>k e first.
      first \<in> set (take (nat 2) (drop (k * nat 2) [[1, 2], [3, 4], [5]])) \<and>
      outcome (failOnSeven first) = Inl e \<and>
      processChunksInParallel [1, 2, 3, 4, 5] 2 failOnSeven 2 () =
        Some (Inl e, take (k * nat 2 + nat 2) [[1, 2], [3, 4], [5]], ()))"
proof -
  have two: "(1::int) \<le> 2" by simp
  have member: "[3, 4] \<in> set [[1, 2], [3, 4], [5 :: int]]" by simp
  have rejects: "outcome (failOnSeven [3, 4]) = Inl ''seven''"
    by (simp add: failOnSeven_def)
  from first_rejection_fails_whole_call [where processChunk = failOnSeven and c = "[3, 4]"
      and st = "()", OF two two chunkArray_example member rejects]
  have "\<exists>k e first.
      first \<in> set (take (nat 2) (drop (k * nat 2) [[1, 2], [3, 4], [5]])) \<and>
      outcome (failOnSeven first) = Inl e \<and>
      processChunksInParallel [1, 2, 3, 4, 5] 2 failOnSeven 2 () =
        Some (Inl e, take (k * nat 2 + nat 2) [[1, 2], [3, 4], [5]], ())"
    by (elim exE conjE) (intro exI conjI, assumption, assumption, simp)
  with two chunkArray_example member rejects failOnSeven_example show ?thesis
    by blast
qed

section \<open>Claims about processChunksInParallelWithSum\<close>

lemma power_int_mono_2:
  fixes a b :: int
  assumes "a \<le> b"
  shows "(2::rat) powi a \<le> 2 powi b"
  using assms by (intro power_int_increasing) simp_all

lemma exponent_bounds:
  assumes "x \<noteq> 0"
  shows "2 powi exponent x \<le> \<bar>x\<bar> \<and> \<bar>x\<bar> < 2 powi (exponent x + 1)"
proof -
  obtain n d where q: "quotient_of \<bar>x\<bar> = (n, d)" by (cases "quotient_of \<bar>x\<bar>")
  then have d: "0 < d" by (rule quotient_of_denom_pos)
  from q have x: "\<bar>x\<bar> = of_int n / of_int d" by (rule quotient_of_div)
  with assms d have n: "0 < n"
    by (metis abs_ge_zero zero_less_abs_iff of_int_0_less_iff zero_less_divide_iff of_int_pos not_less_iff_gr_or_eq divide_pos_pos divide_less_0_iff less_le)
  define e where "e = bitlen n - bitlen d"
  from bitlen_bounds [OF n] have nb: "2 ^ nat (bitlen n - 1) \<le> n" "n < 2 ^ nat (bitlen n)" by simp_all
  from bitlen_bounds [OF d] have db: "2 ^ nat (bitlen d - 1) \<le> d" "d < 2 ^ nat (bitlen d)" by simp_all
  have bn: "1 \<le> bitlen n" and bd: "1 \<le> bitlen d"
    using n d bitlen_eq_zero_iff [of n] bitlen_eq_zero_iff [of d] bitlen_nonneg [of n] bitlen_nonneg [of d]
    by linarith+
  have pn: "(2::rat) powi bitlen n = 2 ^ nat (bitlen n)"
    and pn1: "(2::rat) powi (bitlen n - 1) = 2 ^ nat (bitlen n - 1)"
    and pd: "(2::rat) powi bitlen d = 2 ^ nat (bitlen d)"
    and pd1: "(2::rat) powi (bitlen d - 1) = 2 ^ nat (bitlen d - 1)"
    using bn bd by (simp_all add: power_int_def)
  have rn: "(2::rat) powi (bitlen n - 1) \<le> of_int n" "of_int n < (2::rat) powi bitlen n"
    and rd: "(2::rat) powi (bitlen d - 1) \<le> of_int d" "of_int d < (2::rat) powi bitlen d"
    unfolding pn pn1 pd pd1 using nb db
    by (metis of_int_le_iff of_int_less_iff of_int_numeral of_int_power)+
  have dpos: "(0::rat) < of_int d" and p1pos: "(0::rat) < 2 powi (bitlen d - 1)"
    and ppos: "(0::rat) < 2 powi bitlen d"
    using d by simp_all
  have "\<bar>x\<bar> < 2 powi bitlen n / of_int d"
    unfolding x using rn(2) dpos by (simp add: divide_strict_right_mono)
  also have "\<dots> \<le> 2 powi bitlen n / 2 powi (bitlen d - 1)"
    using rd(1) p1pos dpos by (intro divide_left_mono mult_pos_pos) simp_all
  also have "\<dots> = 2 powi (e + 1)"
    by (simp add: e_def power_int_diff [symmetric] algebra_simps)
  finally have upper: "\<bar>x\<bar> < 2 powi (e + 1)" .
  have "(2::rat) powi (e - 1) = 2 powi (bitlen n - 1) / 2 powi bitlen d"
    by (simp add: e_def power_int_diff [symmetric] algebra_simps)
  also have "\<dots> \<le> of_int n / 2 powi bitlen d"
    using rn(1) ppos by (simp add: divide_right_mono)
  also have "\<dots> \<le> of_int n / of_int d"
    using rd(2) dpos ppos n by (intro divide_left_mono mult_pos_pos) simp_all
  finally have lower: "2 powi (e - 1) \<le> \<bar>x\<bar>" by (simp add: x)
  have ex: "exponent x = (if 2 powi e \<le> \<bar>x\<bar> then e else e - 1)"
    by (simp add: exponent_def q e_def Let_def)
  show ?thesis
  proof (cases "2 powi e \<le> \<bar>x\<bar>")
    case True
    with ex upper show ?thesis by simp
  next
    case False
    with ex lower show ?thesis by simp
  qed
qed


lemma exponent_unique:
  assumes "x \<noteq> 0" "2 powi e \<le> \<bar>x\<bar>" "\<bar>x\<bar> < 2 powi (e + 1)"
  shows "exponent x = e"
proof (rule antisym)
  from exponent_bounds [OF assms(1)] assms(3) have "(2::rat) powi exponent x < 2 powi (e + 1)"
    by simp
  then have "exponent x < e + 1"
    using power_int_mono_2 [of "e + 1" "exponent x"] by linarith
  then show "exponent x \<le> e" by simp
next
  from exponent_bounds [OF assms(1)] assms(2) have "(2::rat) powi e < 2 powi (exponent x + 1)"
    by simp
  then have "e < exponent x + 1"
    using power_int_mono_2 [of "exponent x + 1" e] by linarith
  then show "e \<le> exponent x" by simp
qed

lemma round_to_even_of_int [simp]: "round_to_even (of_int m) = m"
  by (simp add: round_to_even_def)

lemma round_to_even_numeral [simp]:
  "round_to_even (numeral k) = numeral k" "round_to_even (- numeral k) = - numeral k"
  using round_to_even_of_int [of "numeral k"] round_to_even_of_int [of "- numeral k"]
  by simp_all

lemma to_number_safe_integer:
  assumes "\<bar>n\<bar> \<le> 9007199254740992"
  shows "to_number (of_int n) = Finite (of_int n)"
proof (cases "n = 0")
  case True
  then show ?thesis by (simp add: to_number_def)
next
  case False
  define x :: rat where "x = of_int n"
  define e where "e = exponent x"
  have x0: "x \<noteq> 0" using False by (simp add: x_def)
  have ax: "\<bar>x\<bar> = of_int \<bar>n\<bar>" by (simp add: x_def)
  from False have one: "1 \<le> \<bar>x\<bar>" unfolding ax by (simp add: Ints_nonzero_abs_ge1)
  from assms have top: "\<bar>x\<bar> \<le> 9007199254740992" unfolding ax
    by (metis of_int_le_iff of_int_numeral)
  from exponent_bounds [OF x0] have lo: "2 powi e \<le> \<bar>x\<bar>" and hi: "\<bar>x\<bar> < 2 powi (e + 1)"
    by (simp_all add: e_def)
  have e0: "0 \<le> e"
  proof (rule ccontr)
    assume "\<not> 0 \<le> e"
    then have "(2::rat) powi (e + 1) \<le> 2 powi 0" by (intro power_int_mono_2) simp
    with hi one show False by simp
  qed
  have e53: "e \<le> 53"
  proof (rule ccontr)
    assume "\<not> e \<le> 53"
    then have "(2::rat) powi 54 \<le> 2 powi e" by (intro power_int_mono_2) simp
    with lo top show False by (simp add: power_int_def)
  qed
  have overflow: "\<not> (2 ^ 1024 \<le> x)" "\<not> (x \<le> - (2 ^ 1024))"
  proof -
    have "(9007199254740992::rat) < 2 ^ 1024" by simp
    with top show "\<not> (2 ^ 1024 \<le> x)" "\<not> (x \<le> - (2 ^ 1024))" by (simp_all add: abs_le_iff)
  qed
  have quantum: "max (e - 52) (- 1074) = e - 52" using e0 by simp
  have "of_int (round_to_even (x / 2 powi (e - 52))) * 2 powi (e - 52) = x"
  proof (cases "e \<le> 52")
    case True
    define k where "k = nat (52 - e)"
    have q: "(2::rat) powi (e - 52) = 1 / 2 ^ k"
      using True by (simp add: power_int_def k_def field_simps nat_diff_distrib)
    have "x / (1 / 2 ^ k) = of_int (n * 2 ^ k)" by (simp add: x_def)
    then have "of_int (round_to_even (x / (1 / 2 ^ k))) * (1 / 2 ^ k) =
        (of_int (n * 2 ^ k) :: rat) * (1 / 2 ^ k)"
      by (simp only: round_to_even_of_int)
    also have "\<dots> = x" by (simp add: x_def)
    finally show ?thesis unfolding q .
  next
    case False
    with e53 have e: "e = 53" by simp
    with lo top have "\<bar>x\<bar> = 9007199254740992" by (simp add: power_int_def)
    then have "x = 9007199254740992 \<or> x = - 9007199254740992" by (simp add: abs_if split: if_splits)
    then show ?thesis
    proof
      assume "x = 9007199254740992"
      then show ?thesis unfolding e by simp
    next
      assume "x = - 9007199254740992"
      then show ?thesis unfolding e by simp
    qed
  qed
  then show ?thesis
    using x0 overflow unfolding to_number_def Let_def quantum e_def [symmetric] x_def [symmetric]
    by simp
qed


lemma to_number_tie: "to_number 9007199254740993 = Finite 9007199254740992"
proof -
  have e: "exponent 9007199254740993 = 53"
    by (rule exponent_unique) (simp_all add: power_int_def)
  have f: "\<lfloor>9007199254740993 / 2 :: rat\<rfloor> = 4503599627370496"
    by (rule floor_unique) simp_all
  have r: "round_to_even (9007199254740993 / 2) = 4503599627370496"
    by (simp add: round_to_even_def Let_def f)
  show ?thesis
    by (simp add: to_number_def e r)
qed

lemma foldl_plus_number_exact:
  assumes "\<forall>k. 1 \<le> k \<and> k \<le> length qs \<longrightarrow>
             to_number (a + sum_list (take k qs)) = Finite (a + sum_list (take k qs))"
  shows "foldl plus_number (Finite a) (map Finite qs) = Finite (a + sum_list qs)"
  using assms
proof (induction qs arbitrary: a)
  case Nil
  show ?case by simp
next
  case (Cons q qs)
  from Cons.prems [rule_format, of 1] have first: "to_number (a + q) = Finite (a + q)" by simp
  have "\<forall>k. 1 \<le> k \<and> k \<le> length qs \<longrightarrow>
          to_number ((a + q) + sum_list (take k qs)) = Finite ((a + q) + sum_list (take k qs))"
  proof (intro allI impI)
    fix k assume "1 \<le> k \<and> k \<le> length qs"
    with Cons.prems [rule_format, of "Suc k"]
    show "to_number ((a + q) + sum_list (take k qs)) = Finite ((a + q) + sum_list (take k qs))"
      by (simp add: add.assoc)
  qed
  from Cons.IH [OF this] first show ?case by (simp add: add.assoc)
qed

lemma sum_list_rat_of_int: "sum_list (map rat_of_int ns) = of_int (sum_list ns)"
  by (induction ns) simp_all

lemma foldl_plus_number_integers:
  assumes "\<forall>k \<le> length ints. \<bar>sum_list (take k ints)\<bar> \<le> 9007199254740992"
  shows "foldl plus_number (Finite 0) (map (\<lambda>n. Finite (of_int n)) ints) =
         Finite (of_int (sum_list ints))"
proof -
  have "to_number (0 + sum_list (take k (map of_int ints))) =
        Finite (0 + sum_list (take k (map of_int ints)))" if "k \<le> length ints" for k
  proof -
    have "sum_list (take k (map rat_of_int ints)) = of_int (sum_list (take k ints))"
      by (simp add: take_map sum_list_rat_of_int)
    with assms that show ?thesis
      by (simp add: to_number_safe_integer)
  qed
  then have "foldl plus_number (Finite 0) (map Finite (map of_int ints)) =
      Finite (0 + sum_list (map of_int ints))"
    by (intro foldl_plus_number_exact) simp
  then show ?thesis
    by (simp add: sum_list_rat_of_int comp_def)
qed


lemma fulfilments_numbers:
  "\<forall>c \<in> set cs. outcome (f c) = Inr (number c) \<Longrightarrow> fulfilments (map f cs) = map number cs"
  by (induction cs) simp_all

lemma processChunksInParallelWithSum_reduces:
  fixes processChunk :: "'a list \<Rightarrow> ('s, 'e, number) promise"
  assumes "1 \<le> chunkSize" "1 \<le> maxConcurrency"
    and "chunkArray items chunkSize = Some chunks"
    and "\<forall>c \<in> set chunks. outcome (processChunk c) = Inr (number c)"
  shows "\<exists>st'. processChunksInParallelWithSum items chunkSize processChunk maxConcurrency st =
           Some (Inr (foldl plus_number (Finite 0) (map number chunks)), chunks, st')"
proof -
  from processChunksInParallel_runs [OF assms(1) assms(2), of items processChunk st] assms(3)
  obtain res n st' where
    run: "processChunksInParallel items chunkSize processChunk maxConcurrency st =
            Some (res, take n chunks, st')" and
    post: "case res of
              Inr rs \<Rightarrow> rejections (map processChunk chunks) = [] \<and>
                        rs = fulfilments (map processChunk chunks) \<and> length chunks \<le> n
            | Inl e \<Rightarrow> e \<in> set (rejections (map processChunk (take n chunks)))"
    by auto
  from assms(4) have none: "rejections (map processChunk chunks) = []"
    by (simp add: rejections_Nil_iff)
  then have "set (rejections (map processChunk (take n chunks))) = {}"
    using rejections_take [of n "map processChunk chunks"] by (simp add: take_map)
  with post have res: "res = Inr (map number chunks)" and n: "length chunks \<le> n"
    using fulfilments_numbers [OF assms(4)] by (cases res; auto)+
  from run res n show ?thesis
    by (simp add: processChunksInParallelWithSum_def)
qed

lemma chunkArray_singletons:
  "chunkArray [9007199254740992, 1, 1 :: int] 1 = Some [[9007199254740992], [1], [1]]"
  by (simp add: chunkArray_def chunkArray_loop.simps slice_def relative_index_def)

lemma to_number_power_53: "to_number 9007199254740992 = Finite 9007199254740992"
  using to_number_safe_integer [of 9007199254740992] by simp

text \<open>
  Claim C6 says that \<^verbatim>\<open>processChunksInParallelWithSum\<close> returns the arithmetic sum of the
  per-chunk numbers. The numbers are doubles and are added one after the other, each sum
  rounded: with the per-chunk results \<open>2^53\<close>, 1 and 1 the call returns \<open>2^53\<close>, and the
  arithmetic sum is \<open>2^53 + 2\<close>.
\<close>

theorem sum_is_double_reduction_counterexample:
  "processChunksInParallelWithSum [9007199254740992, 1, 1] 1 numberOfChunk 1 () =
     Some (Inr (Finite 9007199254740992), [[9007199254740992], [1], [1]], ()) \<and>
   Finite (9007199254740992 + 1 + 1) \<noteq> Finite 9007199254740992"
proof -
  have one: "(1::int) \<le> 1" by simp
  have fulfils: "\<forall>c \<in> set [[9007199254740992], [1], [1]].
      outcome (numberOfChunk c) = Inr (Finite (of_int (sum_list c)))"
    by (simp add: numberOfChunk_def)
  from processChunksInParallelWithSum_reduces [OF one one chunkArray_singletons fulfils, of "()"]
  have "processChunksInParallelWithSum [9007199254740992, 1, 1] 1 numberOfChunk 1 () =
     Some (Inr (foldl plus_number (Finite 0) [Finite 9007199254740992, Finite 1, Finite 1]),
           [[9007199254740992], [1], [1]], ())"
    by simp
  then show ?thesis
    by (simp add: to_number_power_53 to_number_tie)
qed

text \<open>
  Claim C6 as amended. With chunk size and concurrency of at least 1 and a \<^verbatim>\<open>processChunk\<close>
  that fulfils with a number on every chunk, \<^verbatim>\<open>processChunksInParallelWithSum\<close> invokes it on
  every chunk and returns the per-chunk numbers added up from 0 from left to right, in
  chunk order, with the addition of doubles. This is the arithmetic sum whenever the
  numbers are finite and the exact sum of every initial part of them is a double, as it is
  for integers whose partial sums stay within \<open>2^53\<close> in magnitude. No items give 0, and the
  items 1 to 5 in chunks of 2, each chunk processed to its sum, give 15 for every
  concurrency, settling order and completion effect.
\<close>

theorem sum_is_double_reduction:
  fixes processChunk :: "'a list \<Rightarrow> ('s, 'e, number) promise"
    and effect :: "int list \<Rightarrow> 'u \<Rightarrow> 'u"
  assumes "1 \<le> chunkSize" "1 \<le> maxConcurrency"
    and "chunkArray items chunkSize = Some chunks"
    and "\<forall>c \<in> set chunks. outcome (processChunk c) = Inr (number c)"
  shows "(\<exists>st'. processChunksInParallelWithSum items chunkSize processChunk maxConcurrency st =
            Some (Inr (foldl plus_number (Finite 0) (map number chunks)), chunks, st')) \<and>
         (\<forall>rationals.
            map number chunks = map Finite rationals \<and>
            (\<forall>k \<le> length rationals.
               to_number (sum_list (take k rationals)) = Finite (sum_list (take k rationals))) \<longrightarrow>
            foldl plus_number (Finite 0) (map number chunks) = Finite (sum_list rationals)) \<and>
         (\<forall>ints.
            map number chunks = map (\<lambda>n. Finite (of_int n)) ints \<and>
            (\<forall>k \<le> length ints. \<bar>sum_list (take k ints)\<bar> \<le> 9007199254740992) \<longrightarrow>
            foldl plus_number (Finite 0) (map number chunks) = Finite (of_int (sum_list ints))) \<and>
         (items = [] \<longrightarrow> foldl plus_number (Finite 0) (map number chunks) = Finite 0) \<and>
         (\<exists>st'. processChunksInParallelWithSum [1, 2, 3, 4, 5] 2
              (\<lambda>chunk. Promise (settles chunk) (Inr (Finite (of_int (sum_list chunk)))) (effect chunk) ::
                 ('u, 'f, number) promise)
              maxConcurrency st2 =
            Some (Inr (Finite 15), [[1, 2], [3, 4], [5]], st'))"
    (is "?reduces \<and> ?exact \<and> ?integers \<and> ?none \<and> ?example")
proof (intro conjI)
  show ?reduces
    using assms by (rule processChunksInParallelWithSum_reduces)
next
  show ?exact
  proof (intro allI impI)
    fix rationals
    assume a: "map number chunks = map Finite rationals \<and>
            (\<forall>k \<le> length rationals.
               to_number (sum_list (take k rationals)) = Finite (sum_list (take k rationals)))"
    then have "foldl plus_number (Finite 0) (map Finite rationals) = Finite (0 + sum_list rationals)"
      by (intro foldl_plus_number_exact) simp
    with a show "foldl plus_number (Finite 0) (map number chunks) = Finite (sum_list rationals)"
      by simp
  qed
next
  show ?integers
    using foldl_plus_number_integers by auto
next
  show ?none
  proof
    assume "items = []"
    with assms(3) have "chunks = []"
      by (simp add: chunkArray_def chunkArray_loop.simps)
    then show "foldl plus_number (Finite 0) (map number chunks) = Finite 0" by simp
  qed
next
  define f :: "int list \<Rightarrow> ('u, 'f, number) promise"
    where "f = (\<lambda>chunk. Promise (settles chunk) (Inr (Finite (of_int (sum_list chunk)))) (effect chunk))"
  have two: "(1::int) \<le> 2" by simp
  have fulfils: "\<forall>c \<in> set [[1, 2], [3, 4], [5]].
      outcome (f c) = Inr (Finite (of_int (sum_list c)))"
    by (simp add: f_def)
  from processChunksInParallelWithSum_reduces [OF two assms(2) chunkArray_example fulfils, of st2]
  obtain st' where run: "processChunksInParallelWithSum [1, 2, 3, 4, 5] 2 f maxConcurrency st2 =
      Some (Inr (foldl plus_number (Finite 0)
                  (map (\<lambda>c. Finite (of_int (sum_list c))) [[1, 2], [3, 4], [5]])),
            [[1, 2], [3, 4], [5]], st')"
    by blast
  have "foldl plus_number (Finite 0) (map (\<lambda>n. Finite (of_int n)) [3, 7, 5]) =
      Finite (of_int (sum_list [3, 7, 5]))"
    by (rule foldl_plus_number_integers) (simp add: less_Suc_eq_le [symmetric] less_Suc_eq)
  then have "foldl plus_number (Finite 0)
      (map (\<lambda>c. Finite (of_int (sum_list c))) [[1, 2], [3, 4], [5]]) = Finite 15"
    by simp
  with run show ?example
    unfolding f_def by auto
qed

theorem sum_is_double_reduction_witness:
  "(1::int) \<le> 2 \<and> (1::int) \<le> 3 \<and>
   chunkArray [1, 2, 3, 4, 5 :: int] 2 = Some [[1, 2], [3, 4], [5]] \<and>
   outcome (numberOfChunk [1, 2]) = Inr (Finite 3) \<and>
   outcome (numberOfChunk [3, 4]) = Inr (Finite 7) \<and>
   outcome (numberOfChunk [5]) = Inr (Finite 5) \<and>
   \<bar>sum_list [3, 7, 5 :: int]\<bar> \<le> 9007199254740992 \<and>
   (\<exists>st'. processChunksInParallelWithSum [1, 2, 3, 4, 5] 2 numberOfChunk 3 () =
      Some (Inr (Finite 15), [[1, 2], [3, 4], [5]], st'))"
proof -
  have two: "(1::int) \<le> 2" and three: "(1::int) \<le> 3" by simp_all
  have outcomes: "outcome (numberOfChunk [1, 2]) = Inr (Finite 3)"
    "outcome (numberOfChunk [3, 4]) = Inr (Finite 7)"
    "outcome (numberOfChunk [5]) = Inr (Finite 5)"
    by (simp_all add: numberOfChunk_def)
  then have fulfils: "\<forall>c \<in> set [[1, 2], [3, 4], [5]].
      outcome (numberOfChunk c) = Inr (Finite (of_int (sum_list c)))"
    by simp
  have small: "\<forall>k \<le> length [3, 7, 5 :: int]. \<bar>sum_list (take k [3, 7, 5 :: int])\<bar> \<le> 9007199254740992"
    by (simp add: less_Suc_eq_le [symmetric] less_Suc_eq)
  note inst = sum_is_double_reduction [where processChunk = numberOfChunk
      and number = "\<lambda>c. Finite (of_int (sum_list c))" and st = "()",
      OF two three chunkArray_example fulfils]
  from inst [THEN conjunct1]
  obtain st' where run: "processChunksInParallelWithSum [1, 2, 3, 4, 5] 2 numberOfChunk 3 () =
      Some (Inr (foldl plus_number (Finite 0)
                  (map (\<lambda>c. Finite (of_int (sum_list c))) [[1, 2], [3, 4], [5]])),
            [[1, 2], [3, 4], [5]], st')"
    by blast
  from inst [THEN conjunct2, THEN conjunct2, THEN conjunct1, rule_format, of "[3, 7, 5]"] small
  have "foldl plus_number (Finite 0)
          (map (\<lambda>c. Finite (of_int (sum_list c))) [[1, 2], [3, 4], [5]]) = Finite 15"
    by simp
  with run have "\<exists>st'. processChunksInParallelWithSum [1, 2, 3, 4, 5] 2 numberOfChunk 3 () =
      Some (Inr (Finite 15), [[1, 2], [3, 4], [5]], st')"
    by simp
  with two three chunkArray_example outcomes show ?thesis by simp
qed

section \<open>Claims about processPaginatedInParallel\<close>

lemma page_below_total:
  fixes totalCount pageSize p :: int
  assumes "1 \<le> pageSize" "p \<in> set [0..\<lceil>real_of_int totalCount / real_of_int pageSize\<rceil> - 1]"
  shows "0 \<le> p \<and> p * pageSize < totalCount"
proof -
  from assms(2) have "0 \<le> p" and "p < \<lceil>real_of_int totalCount / real_of_int pageSize\<rceil>"
    by simp_all
  then have "real_of_int p < real_of_int totalCount / real_of_int pageSize"
    by (simp add: less_ceiling_iff)
  then have "real_of_int p * real_of_int pageSize < real_of_int totalCount"
    using assms(1) by (simp add: pos_less_divide_eq)
  then have "real_of_int (p * pageSize) < real_of_int totalCount" by simp
  then have "p * pageSize < totalCount" by (simp only: of_int_less_iff)
  with \<open>0 \<le> p\<close> show ?thesis by simp
qed

text \<open>
  Claim C4. For a total count of at least 0 and page size and concurrency of at least 1,
  \<^verbatim>\<open>processPaginatedInParallel\<close> returns. It invokes \<^verbatim>\<open>readPage\<close> on an initial part of the
  pages \<open>0, 1, \<dots>\<close> below \<open>ceil (totalCount / pageSize)\<close>, in page order and each at most once,
  page \<open>p\<close> with offset \<open>p * pageSize\<close> and limit \<open>min pageSize (totalCount - offset)\<close>, so
  that no invocation reads beyond the total count. When every page is fulfilled it invokes
  \<^verbatim>\<open>readPage\<close> on all of them, exactly \<open>ceil (totalCount / pageSize)\<close> times, and returns the
  page results concatenated in page order. A total count of 0 gives the empty result and no
  invocation.
\<close>

theorem pages_read_once_each:
  fixes readPage :: "int \<Rightarrow> int \<Rightarrow> ('s, 'e, 't list) promise"
  assumes "0 \<le> totalCount" "1 \<le> pageSize" "1 \<le> maxConcurrency"
  shows "\<exists>res calls st'.
    processPaginatedInParallel totalCount pageSize readPage maxConcurrency st =
      Some (res, calls, st') \<and>
    (\<exists>n. calls = take n (map (\<lambda>p. (p * pageSize, min pageSize (totalCount - p * pageSize)))
                             [0..\<lceil>real_of_int totalCount / real_of_int pageSize\<rceil> - 1])) \<and>
    (\<forall>(offset, limit) \<in> set calls.
       0 \<le> offset \<and> 1 \<le> limit \<and> limit \<le> pageSize \<and> offset + limit \<le> totalCount) \<and>
    ((\<forall>p \<in> {0..<\<lceil>real_of_int totalCount / real_of_int pageSize\<rceil>}.
        \<not> isl (outcome (readPage (p * pageSize) (min pageSize (totalCount - p * pageSize))))) \<longrightarrow>
     calls = map (\<lambda>p. (p * pageSize, min pageSize (totalCount - p * pageSize)))
                 [0..\<lceil>real_of_int totalCount / real_of_int pageSize\<rceil> - 1] \<and>
     int (length calls) = \<lceil>real_of_int totalCount / real_of_int pageSize\<rceil> \<and>
     (\<exists>pageResults. res = Inr (concat pageResults) \<and>
        map Inr pageResults =
        map (\<lambda>p. outcome (readPage (p * pageSize) (min pageSize (totalCount - p * pageSize))))
            [0..\<lceil>real_of_int totalCount / real_of_int pageSize\<rceil> - 1])) \<and>
    (totalCount = 0 \<longrightarrow> res = Inr [] \<and> calls = [])"
proof -
  define t where "t = \<lceil>real_of_int totalCount / real_of_int pageSize\<rceil>"
  define g where "g = (\<lambda>p. readPage (p * pageSize) (min pageSize (totalCount - p * pageSize)))"
  define request where "request = (\<lambda>p. (p * pageSize, min pageSize (totalCount - p * pageSize)))"
  from processPaginatedInParallel_runs [OF assms(2) assms(3), of totalCount readPage st]
  obtain res n st' where
    run: "processPaginatedInParallel totalCount pageSize readPage maxConcurrency st =
            Some (res, map request (take n [0..t - 1]), st')" and
    post: "case res of
              Inr rs \<Rightarrow> rejections (map g [0..t - 1]) = [] \<and>
                        rs = concat (fulfilments (map g [0..t - 1])) \<and>
                        length [0..t - 1] \<le> n \<and>
                        (\<exists>order. mset order = mset [0..t - 1] \<and>
                                 st' = foldl (\<lambda>s p. onSettled (g p) s) st order)
            | Inl e \<Rightarrow> e \<in> set (rejections (map g (take n [0..t - 1])))"
    unfolding t_def g_def request_def by blast
  define calls where "calls = map request (take n [0..t - 1])"
  have "0 \<le> real_of_int totalCount / real_of_int pageSize"
    using assms(1,2) by (intro divide_nonneg_pos) simp_all
  then have t0: "0 \<le> t"
    unfolding t_def using ceiling_mono [of 0 "real_of_int totalCount / real_of_int pageSize"]
    by simp

  have prefix: "calls = take n (map request [0..t - 1])"
    by (simp add: calls_def take_map)
  have bounds: "0 \<le> offset \<and> 1 \<le> limit \<and> limit \<le> pageSize \<and> offset + limit \<le> totalCount"
    if "(offset, limit) \<in> set calls" for offset limit
  proof -
    from that obtain p where p: "p \<in> set [0..t - 1]" "offset = p * pageSize"
      "limit = min pageSize (totalCount - p * pageSize)"
      by (auto simp: calls_def request_def dest: in_set_takeD)
    from page_below_total [OF assms(2) p(1) [unfolded t_def]]
    have "0 \<le> p" "p * pageSize < totalCount" by simp_all
    with p assms(2) show ?thesis by (auto simp: min_def)
  qed
  have success: "calls = map request [0..t - 1] \<and> int (length calls) = t \<and>
     (\<exists>pageResults. res = Inr (concat pageResults) \<and>
        map Inr pageResults = map (\<lambda>p. outcome (g p)) [0..t - 1])"
    if ok: "\<forall>p \<in> {0..<t}. \<not> isl (outcome (g p))"
  proof (cases res)
    case (Inl e)
    with post have "e \<in> set (rejections (map g [0..t - 1]))"
      using rejections_take [of n "map g [0..t - 1]"] by (auto simp: take_map)
    then obtain p where p: "p \<in> {0..<t}" "outcome (g p) = Inl e"
      by (auto simp: set_rejections)
    with ok have "\<not> isl (outcome (g p))" by blast
    with p show ?thesis by simp
  next
    case (Inr rs)
    with post have none: "rejections (map g [0..t - 1]) = []"
      and rs: "rs = concat (fulfilments (map g [0..t - 1]))"
      and n: "length [0..t - 1] \<le> n" by simp_all
    from n have "calls = map request [0..t - 1]" by (simp add: calls_def)
    moreover from this t0 have "int (length calls) = t" by simp
    moreover have "map Inr (fulfilments (map g [0..t - 1])) = map (\<lambda>p. outcome (g p)) [0..t - 1]"
      using fulfilments_outcomes [OF none] by (simp add: comp_def)
    ultimately show ?thesis using Inr rs by blast
  qed
  have no_pages: "res = Inr [] \<and> calls = []" if "totalCount = 0"
  proof -
    from that have "t = 0" by (simp add: t_def)
    then have empty: "[0..t - 1] = []" by simp
    with post have "res = Inr []" by (cases res) simp_all
    with empty show ?thesis by (simp add: calls_def)
  qed
  have run': "processPaginatedInParallel totalCount pageSize readPage maxConcurrency st =
            Some (res, calls, st')"
    using run by (simp only: calls_def)
  have bounds': "\<forall>(offset, limit) \<in> set calls.
       0 \<le> offset \<and> 1 \<le> limit \<and> limit \<le> pageSize \<and> offset + limit \<le> totalCount"
    using bounds by blast
  have prefix': "\<exists>n. calls = take n (map request [0..t - 1])"
    using prefix by blast
  from run' prefix' bounds' success no_pages
  have "processPaginatedInParallel totalCount pageSize readPage maxConcurrency st =
          Some (res, calls, st') \<and>
        (\<exists>n. calls = take n (map request [0..t - 1])) \<and>
        (\<forall>(offset, limit) \<in> set calls.
           0 \<le> offset \<and> 1 \<le> limit \<and> limit \<le> pageSize \<and> offset + limit \<le> totalCount) \<and>
        ((\<forall>p \<in> {0..<t}. \<not> isl (outcome (g p))) \<longrightarrow>
           calls = map request [0..t - 1] \<and> int (length calls) = t \<and>
           (\<exists>pageResults. res = Inr (concat pageResults) \<and>
              map Inr pageResults = map (\<lambda>p. outcome (g p)) [0..t - 1])) \<and>
        (totalCount = 0 \<longrightarrow> res = Inr [] \<and> calls = [])"
    by (intro conjI impI) blast+
  then show ?thesis
    unfolding t_def g_def request_def by (intro exI)
qed

theorem pages_read_once_each_witness:
  "(0::int) \<le> 10 \<and> (1::int) \<le> 3 \<and> (1::int) \<le> 2 \<and>
   processPaginatedInParallel 10 3 rangePage 2 () =
     Some (Inr [0, 1, 2, 3, 4, 5, 6, 7, 8, 9], [(0, 3), (3, 3), (6, 3), (9, 1)], ()) \<and>
   (\<exists>res calls st'.
      processPaginatedInParallel 10 3 rangePage 2 () = Some (res, calls, st') \<and>
      calls = map (\<lambda>p. (p * 3, min 3 (10 - p * 3))) [0..4 - 1] \<and>
      int (length calls) = 4)"
proof -
  have ten: "(0::int) \<le> 10" and three: "(1::int) \<le> 3" and two: "(1::int) \<le> 2"
    by simp_all
  have pages: "\<lceil>real_of_int 10 / real_of_int 3\<rceil> = 4" by simp
  have fulfils: "\<forall>p \<in> {0..<4}. \<not> isl (outcome (rangePage (p * 3) (min 3 (10 - p * 3))))"
    by (simp add: rangePage_def)
  from pages_read_once_each [OF ten three two, of rangePage "()", unfolded pages] fulfils
  have "\<exists>res calls st'.
      processPaginatedInParallel 10 3 rangePage 2 () = Some (res, calls, st') \<and>
      calls = map (\<lambda>p. (p * 3, min 3 (10 - p * 3))) [0..4 - 1] \<and>
      int (length calls) = 4"
    by blast
  with ten three two processPaginatedInParallel_example show ?thesis
    by blast
qed

section \<open>Claims about processPaginatedWithProgress\<close>

lemma outcome_readPageWithProgress [simp]:
  "outcome (readPageWithProgress readPage pageSize totalPages onProgress offset limit) =
   outcome (readPage offset limit)"
  by (simp add: readPageWithProgress_def Let_def)

lemma onSettled_readPageWithProgress:
  assumes "outcome (readPage offset limit) = Inr result"
  shows "onSettled (readPageWithProgress readPage pageSize totalPages onProgress offset limit) (s, pr) =
    (onSettled (readPage offset limit) s,
     \<lparr>recordsProcessed = recordsProcessed pr + int (length result),
      progressCalls =
        (if onProgress
         then progressCalls pr @
              [(plus_js (floor_quotient offset pageSize) 1, totalPages,
                recordsProcessed pr + int (length result))]
         else progressCalls pr)\<rparr>)"
  using assms by (simp add: readPageWithProgress_def Let_def)

lemma currentPage_of_offset:
  "pageSize \<noteq> 0 \<Longrightarrow>
   plus_js (floor_quotient (p * pageSize) pageSize) 1 =
   Num (\<lfloor>real_of_int (p * pageSize) / real_of_int pageSize\<rfloor> + 1)"
  by (simp only: floor_quotient_def if_False floor_divide_of_int_eq plus_js.simps)

lemma progress_fold:
  fixes readPage :: "int \<Rightarrow> int \<Rightarrow> ('s, 'e, 't list) promise" and pageSize totalCount :: int
    and totalPages :: jsnum and onProgress :: bool
  defines "inner \<equiv> \<lambda>p. readPage (p * pageSize) (min pageSize (totalCount - p * pageSize))"
  defines "g \<equiv> \<lambda>p. readPageWithProgress readPage pageSize totalPages onProgress
                       (p * pageSize) (min pageSize (totalCount - p * pageSize))"
  defines "entry \<equiv> \<lambda>p. plus_js (floor_quotient (p * pageSize) pageSize) 1"
  assumes "\<forall>p \<in> set order. outcome (inner p) = Inr (records p)"
  shows "foldl (\<lambda>s p. onSettled (g p) s) (s, pr) order =
    (foldl (\<lambda>s p. onSettled (inner p) s) s order,
     \<lparr>recordsProcessed = recordsProcessed pr + int (length (concat (map records order))),
      progressCalls = progressCalls pr @
        (if onProgress
         then map (\<lambda>k. (entry (order ! k), totalPages,
                         recordsProcessed pr + int (length (concat (map records (take (Suc k) order))))))
                  [0..<length order]
         else [])\<rparr>)"
  using assms(4)
proof (induction order arbitrary: s pr)
  case Nil
  show ?case by simp
next
  case (Cons p order)
  from Cons.prems have p: "outcome (inner p) = Inr (records p)"
    and rest: "\<forall>q \<in> set order. outcome (inner q) = Inr (records q)" by simp_all
  define pr1 where "pr1 = \<lparr>recordsProcessed = recordsProcessed pr + int (length (records p)),
      progressCalls =
        (if onProgress
         then progressCalls pr @
              [(entry p, totalPages, recordsProcessed pr + int (length (records p)))]
         else progressCalls pr)\<rparr>"
  have step: "onSettled (g p) (s, pr) = (onSettled (inner p) s, pr1)"
    using onSettled_readPageWithProgress [where readPage = readPage, OF p [unfolded inner_def]]
    by (simp add: g_def inner_def entry_def pr1_def)
  have "foldl (\<lambda>s p. onSettled (g p) s) (s, pr) (p # order) =
        foldl (\<lambda>s p. onSettled (g p) s) (onSettled (inner p) s, pr1) order"
    by (simp add: step)
  also note Cons.IH [OF rest, of "onSettled (inner p) s" pr1]
  finally show ?case
    by (simp add: pr1_def map_upt_Suc add.assoc del: upt_Suc)
qed

lemma length_concat_mset:
  assumes "mset xs = mset ys"
  shows "length (concat (map records xs)) = length (concat (map records ys))"
proof -
  have "sum_list (map (\<lambda>x. length (records x)) xs) = sum_mset (mset (map (\<lambda>x. length (records x)) xs))"
    by (simp only: sum_mset_sum_list)
  also have "\<dots> = sum_mset (mset (map (\<lambda>x. length (records x)) ys))"
    using assms by simp
  also have "\<dots> = sum_list (map (\<lambda>x. length (records x)) ys)"
    by (simp only: sum_mset_sum_list)
  finally show ?thesis
    by (simp add: length_concat comp_def)
qed

lemma fulfilments_pages:
  "\<forall>p \<in> set ps. outcome (g p) = Inr (records p) \<Longrightarrow> fulfilments (map g ps) = map records ps"
  by (induction ps) simp_all

lemma processPaginatedWithProgress_example:
  "processPaginatedWithProgress 10 3 rangePage 2 True () =
     Some (Inr [0, 1, 2, 3, 4, 5, 6, 7, 8, 9], [(0, 3), (3, 3), (6, 3), (9, 1)], (),
           \<lparr>recordsProcessed = 10,
            progressCalls =
              [(Num 2, Num 4, 3), (Num 1, Num 4, 6), (Num 4, Num 4, 7), (Num 3, Num 4, 10)]\<rparr>)"
  by code_simp

text \<open>
  Claim C8. For a total count of at least 0, page size and concurrency of at least 1 and a
  \<^verbatim>\<open>readPage\<close> that fulfils on every page (page \<open>p\<close> with the records \<open>records p\<close>),
  \<^verbatim>\<open>processPaginatedWithProgress\<close> returns the pages concatenated in page order. The pages
  complete in some order \<open>completed\<close>, a rearrangement of the page indexes in which every page
  occurs once. When \<^verbatim>\<open>onProgress\<close> is supplied it is called once per completed page, in that
  order, hence \<open>ceil (totalCount / pageSize)\<close> times: call \<open>k\<close> gets
  \<open>floor (offset / pageSize) + 1\<close> for the offset of its page, the number of pages, and the
  number of records of the pages completed up to and including this one. When it is not
  supplied nothing is called. The final value of \<^verbatim>\<open>recordsProcessed\<close> is the number of records
  returned.
\<close>

theorem progress_reported_once_per_page:
  fixes readPage :: "int \<Rightarrow> int \<Rightarrow> ('s, 'e, 't list) promise"
  assumes "0 \<le> totalCount" "1 \<le> pageSize" "1 \<le> maxConcurrency"
    and "\<forall>p \<in> {0..<\<lceil>real_of_int totalCount / real_of_int pageSize\<rceil>}.
           outcome (readPage (p * pageSize) (min pageSize (totalCount - p * pageSize))) = Inr (records p)"
  shows "\<exists>calls st' pr completed.
    processPaginatedWithProgress totalCount pageSize readPage maxConcurrency onProgress st =
      Some (Inr (concat (map records [0..\<lceil>real_of_int totalCount / real_of_int pageSize\<rceil> - 1])),
            calls, st', pr) \<and>
    mset completed = mset [0..\<lceil>real_of_int totalCount / real_of_int pageSize\<rceil> - 1] \<and>
    progressCalls pr =
      (if onProgress
       then map (\<lambda>k. (Num (\<lfloor>real_of_int (completed ! k * pageSize) / real_of_int pageSize\<rfloor> + 1),
                       Num \<lceil>real_of_int totalCount / real_of_int pageSize\<rceil>,
                       int (length (concat (map records (take (Suc k) completed))))))
                [0..<length completed]
       else []) \<and>
    (onProgress \<longrightarrow>
       int (length (progressCalls pr)) = \<lceil>real_of_int totalCount / real_of_int pageSize\<rceil>) \<and>
    recordsProcessed pr =
      int (length (concat (map records [0..\<lceil>real_of_int totalCount / real_of_int pageSize\<rceil> - 1])))"
proof -
  define t where "t = \<lceil>real_of_int totalCount / real_of_int pageSize\<rceil>"
  define w where "w = readPageWithProgress readPage pageSize (Num t) onProgress"
  define inner where
    "inner = (\<lambda>p. readPage (p * pageSize) (min pageSize (totalCount - p * pageSize)))"
  define g where "g = (\<lambda>p. w (p * pageSize) (min pageSize (totalCount - p * pageSize)))"
  define pr0 where "pr0 = \<lparr>recordsProcessed = 0, progressCalls = []\<rparr>"
  have ps: "pageSize \<noteq> 0" using assms(2) by simp
  have tp: "ceil_quotient totalCount pageSize = Num t"
    unfolding t_def using ps by (rule ceil_quotient_ceiling)
  have "0 \<le> real_of_int totalCount / real_of_int pageSize"
    using assms(1,2) by (intro divide_nonneg_pos) simp_all
  then have t0: "0 \<le> t"
    unfolding t_def using ceiling_mono [of 0 "real_of_int totalCount / real_of_int pageSize"]
    by simp
  have pages: "\<forall>p \<in> set [0..t - 1]. outcome (inner p) = Inr (records p)"
    using assms(4) by (simp add: t_def inner_def)
  then have wrapped: "\<forall>p \<in> set [0..t - 1]. outcome (g p) = Inr (records p)"
    by (simp add: g_def w_def inner_def)
  have unfold: "processPaginatedWithProgress totalCount pageSize readPage maxConcurrency onProgress st =
        processPaginatedInParallel totalCount pageSize w maxConcurrency (st, pr0)"
    by (simp add: processPaginatedWithProgress_def Let_def tp w_def pr0_def)
  from processPaginatedInParallel_runs [OF assms(2) assms(3), of totalCount w "(st, pr0)"]
  obtain res n st2 where
    run: "processPaginatedInParallel totalCount pageSize w maxConcurrency (st, pr0) =
            Some (res, map (\<lambda>p. (p * pageSize, min pageSize (totalCount - p * pageSize)))
                           (take n [0..t - 1]), st2)" and
    post: "case res of
              Inr rs \<Rightarrow> rejections (map g [0..t - 1]) = [] \<and>
                        rs = concat (fulfilments (map g [0..t - 1])) \<and>
                        length [0..t - 1] \<le> n \<and>
                        (\<exists>order. mset order = mset [0..t - 1] \<and>
                                 st2 = foldl (\<lambda>s p. onSettled (g p) s) (st, pr0) order)
            | Inl e \<Rightarrow> e \<in> set (rejections (map g (take n [0..t - 1])))"
    unfolding t_def g_def by blast
  have none: "rejections (map g [0..t - 1]) = []"
    using wrapped by (simp add: rejections_Nil_iff)
  then have "set (rejections (map g (take n [0..t - 1]))) = {}"
    using rejections_take [of n "map g [0..t - 1]"] by (simp add: take_map)
  with post obtain completed where
    res: "res = Inr (concat (fulfilments (map g [0..t - 1])))" and
    completed: "mset completed = mset [0..t - 1]" and
    st2: "st2 = foldl (\<lambda>s p. onSettled (g p) s) (st, pr0) completed"
    by (cases res) auto
  have result: "res = Inr (concat (map records [0..t - 1]))"
    using res fulfilments_pages [OF wrapped] by simp
  from completed have "set completed = set [0..t - 1]"
    by (rule mset_eq_setD)
  with pages have done_pages: "\<forall>p \<in> set completed. outcome (inner p) = Inr (records p)"
    by simp
  define st' where "st' = foldl (\<lambda>s p. onSettled (inner p) s) st completed"
  define pr where "pr = \<lparr>recordsProcessed = int (length (concat (map records completed))),
      progressCalls =
        (if onProgress
         then map (\<lambda>k. (plus_js (floor_quotient (completed ! k * pageSize) pageSize) 1, Num t,
                         int (length (concat (map records (take (Suc k) completed))))))
                  [0..<length completed]
         else [])\<rparr>"
  have final: "st2 = (st', pr)"
    unfolding st2 g_def w_def st'_def pr_def
    using progress_fold [where readPage = readPage and pageSize = pageSize
        and totalCount = totalCount and order = completed and records = records
        and totalPages = "Num t" and onProgress = onProgress and s = st and pr = pr0,
        OF done_pages [unfolded inner_def]]
    by (simp add: inner_def pr0_def)
  have calls: "progressCalls pr =
      (if onProgress
       then map (\<lambda>k. (Num (\<lfloor>real_of_int (completed ! k * pageSize) / real_of_int pageSize\<rfloor> + 1),
                       Num t, int (length (concat (map records (take (Suc k) completed))))))
                [0..<length completed]
       else [])"
    by (simp add: pr_def currentPage_of_offset [OF ps])
  have "length completed = length [0..t - 1]"
    using completed by (rule mset_eq_length)
  with t0 have count: "int (length completed) = t" by simp
  have "int (length (progressCalls pr)) = t" if onProgress
    using that count by (simp add: calls)
  moreover have "recordsProcessed pr = int (length (concat (map records [0..t - 1])))"
    using length_concat_mset [OF completed, of records] by (simp add: pr_def)
  moreover have "processPaginatedWithProgress totalCount pageSize readPage maxConcurrency onProgress st =
      Some (Inr (concat (map records [0..t - 1])),
            map (\<lambda>p. (p * pageSize, min pageSize (totalCount - p * pageSize))) (take n [0..t - 1]),
            st', pr)"
    using unfold run result final by simp
  ultimately show ?thesis
    using completed calls unfolding t_def by blast
qed

theorem progress_reported_once_per_page_witness:
  "(0::int) \<le> 10 \<and> (1::int) \<le> 3 \<and> (1::int) \<le> 2 \<and>
   processPaginatedWithProgress 10 3 rangePage 2 True () =
     Some (Inr [0, 1, 2, 3, 4, 5, 6, 7, 8, 9], [(0, 3), (3, 3), (6, 3), (9, 1)], (),
           \<lparr>recordsProcessed = 10,
            progressCalls =
              [(Num 2, Num 4, 3), (Num 1, Num 4, 6), (Num 4, Num 4, 7), (Num 3, Num 4, 10)]\<rparr>) \<and>
   (\<exists>calls st' pr completed.
      processPaginatedWithProgress 10 3 rangePage 2 True () =
        Some (Inr (concat (map (\<lambda>p. [p * 3..p * 3 + min 3 (10 - p * 3) - 1]) [0..4 - 1])),
              calls, st', pr) \<and>
      mset completed = mset [0..4 - 1] \<and>
      int (length (progressCalls pr)) = 4 \<and>
      recordsProcessed pr =
        int (length (concat (map (\<lambda>p. [p * 3..p * 3 + min 3 (10 - p * 3) - 1]) [0..4 - 1]))))"
proof -
  have ten: "(0::int) \<le> 10" and three: "(1::int) \<le> 3" and two: "(1::int) \<le> 2"
    by simp_all
  have pages: "\<lceil>real_of_int 10 / real_of_int 3\<rceil> = 4" by simp
  have fulfils: "\<forall>p \<in> {0..<4}. outcome (rangePage (p * 3) (min 3 (10 - p * 3))) =
      Inr [p * 3..p * 3 + min 3 (10 - p * 3) - 1]"
    by (simp add: rangePage_def)
  from progress_reported_once_per_page [where readPage = rangePage and onProgress = True
      and st = "()" and records = "\<lambda>p. [p * 3..p * 3 + min 3 (10 - p * 3) - 1]",
      OF ten three two, unfolded pages, OF fulfils]
  have "\<exists>calls st' pr completed.
      processPaginatedWithProgress 10 3 rangePage 2 True () =
        Some (Inr (concat (map (\<lambda>p. [p * 3..p * 3 + min 3 (10 - p * 3) - 1]) [0..4 - 1])),
              calls, st', pr) \<and>
      mset completed = mset [0..4 - 1] \<and>
      int (length (progressCalls pr)) = 4 \<and>
      recordsProcessed pr =
        int (length (concat (map (\<lambda>p. [p * 3..p * 3 + min 3 (10 - p * 3) - 1]) [0..4 - 1])))"
    by (elim exE conjE) (intro exI conjI, assumption, assumption, simp, assumption)
  with ten three two processPaginatedWithProgress_example show ?thesis
    by blast
qed

section \<open>Sizes below 1\<close>

lemma chunkArray_loop_never_returns:
  assumes "chunkArray_loop xs chunkSize i acc = Some y"
  shows "\<not> (chunkSize \<le> 0 \<and> i < int (length xs))"
proof (rule chunkArray_loop.raw_induct
        [where P = "\<lambda>xs chunkSize i acc y. \<not> (chunkSize \<le> 0 \<and> i < int (length xs))",
         OF _ assms], goal_cases)
  case (1 loop array size' j chunks result)
  show ?case
  proof
    assume stuck: "size' \<le> 0 \<and> j < int (length array)"
    with 1(2) have "loop array size' (j + size') (chunks @ [slice array j (j + size')]) = Some result"
      by simp
    from 1(1) [OF this] stuck show False by simp
  qed
qed

lemma chunkArray_diverges:
  "chunkSize < 1 \<Longrightarrow> items \<noteq> [] \<Longrightarrow> chunkArray items chunkSize = None"
  using chunkArray_loop_never_returns [of items chunkSize 0 "[]"]
  by (cases "chunkArray items chunkSize") (auto simp: chunkArray_def)

lemma chunkArray_Nil: "chunkArray [] chunkSize = Some []"
  by (simp add: chunkArray_def chunkArray_loop.simps)

lemma processChunks_loop_no_result:
  assumes "processChunks_loop chunks f maxConcurrency i results calls st = Some y"
  shows "maxConcurrency \<le> 0 \<and> i < int (length chunks) \<longrightarrow> isl (fst y)"
proof (rule processChunks_loop.raw_induct
        [where P = "\<lambda>chunks f maxConcurrency i results calls st y.
                      maxConcurrency \<le> 0 \<and> i < int (length chunks) \<longrightarrow> isl (fst y)",
         OF _ assms], goal_cases)
  case (1 loop chunks f m j results calls st y)
  show ?case
  proof
    assume stuck: "m \<le> 0 \<and> j < int (length chunks)"
    obtain r st1 where wave: "Promise_all (map f (slice chunks j (j + m))) st = (r, st1)"
      by (cases "Promise_all (map f (slice chunks j (j + m))) st")
    show "isl (fst y)"
    proof (cases r)
      case (Inl e)
      with 1(2) stuck wave show ?thesis by (auto simp: Let_def)
    next
      case (Inr batchResults)
      with 1(2) stuck wave have "loop chunks f m (j + m) (results @ batchResults)
          (calls @ slice chunks j (j + m)) st1 = Some y"
        by (simp add: Let_def)
      from 1(1) [OF this] stuck show ?thesis by simp
    qed
  qed
qed

lemma chunkArray_nonempty:
  assumes "1 \<le> chunkSize" "items \<noteq> []" "chunkArray items chunkSize = Some chunks"
  shows "chunks \<noteq> []"
proof -
  have n: "0 < nat chunkSize" using assms(1) by simp
  have "0 < chunk_count (length items) (nat chunkSize)"
    using chunk_count_less [OF n, of 0 "length items"] assms(2) by simp
  moreover have "chunkArray items chunkSize =
      Some (map (\<lambda>j. take (nat chunkSize) (drop (j * nat chunkSize) items))
                [0..<chunk_count (length items) (nat chunkSize)])"
    using chunkArray_closed [OF n, of items] assms(1) by simp
  ultimately show ?thesis using assms(3) by auto
qed

lemma no_check_example_empty:
  "processChunksInParallel [] 0 sumOfChunk 0 () = Some (Inr [], [], ())"
  by code_simp

lemma no_check_example_negative:
  "processChunksInParallel [1, 2, 3, 4, 5] 2 failOnSeven (- 1) () =
     Some (Inl ''seven'', [[1, 2], [3, 4]], ())"
  by code_simp

text \<open>
  Claim C5 says that a chunk size or a concurrency below 1 makes \<^verbatim>\<open>processChunksInParallel\<close>
  fail at once with an invalid-argument error, \<^verbatim>\<open>processChunk\<close> never being invoked. The
  function has no check of its arguments, and two runs show it: with no items and both sizes
  0 the call succeeds with the empty result; with concurrency \<open>-1\<close> the first wave is
  \<^verbatim>\<open>chunks.slice(0, -1)\<close>, all chunks but the last, so \<^verbatim>\<open>processChunk\<close> is invoked, and the
  failure that follows is the rejection of one of these invocations.
\<close>

theorem invalid_sizes_counterexample:
  "(0::int) < 1 \<and> (- 1 :: int) < 1 \<and>
   processChunksInParallel [] 0 sumOfChunk 0 () = Some (Inr [], [], ()) \<and>
   processChunksInParallel [1, 2, 3, 4, 5] 2 failOnSeven (- 1) () =
     Some (Inl ''seven'', [[1, 2], [3, 4]], ())"
  using no_check_example_empty no_check_example_negative by simp

lemma Promise_all_InlD:
  assumes "Promise_all ps st = (Inl e, st')"
  shows "\<exists>p \<in> set ps. outcome p = Inl e"
proof (cases "rejections ps = []")
  case True
  from Promise_all_fulfils [OF True, of st] assms show ?thesis by simp
next
  case False
  from Promise_all_rejects [OF False, of st] assms show ?thesis
    by (auto simp: set_rejections)
qed

lemma processChunks_loop_failure:
  assumes "processChunks_loop chunks f maxConcurrency i results calls st = Some (Inl e, calls', st')"
  shows "\<exists>c \<in> set calls'. outcome (f c) = Inl e"
proof -
  have "\<forall>e calls' st'. y = (Inl e, calls', st') \<longrightarrow> (\<exists>c \<in> set calls'. outcome (f c) = Inl e)"
    if "processChunks_loop chunks f maxConcurrency i results calls st = Some y" for y
  proof (rule processChunks_loop.raw_induct
        [where P = "\<lambda>chunks f maxConcurrency i results calls st y.
                      \<forall>e calls' st'. y = (Inl e, calls', st') \<longrightarrow>
                        (\<exists>c \<in> set calls'. outcome (f c) = Inl e)",
         OF _ that], goal_cases)
    case (1 loop chunks f m j results calls st y)
    show ?case
    proof (cases "j < int (length chunks)")
      case False
      with 1(2) show ?thesis by auto
    next
      case True
      obtain r st1 where wave: "Promise_all (map f (slice chunks j (j + m))) st = (r, st1)"
        by (cases "Promise_all (map f (slice chunks j (j + m))) st")
      show ?thesis
      proof (cases r)
        case (Inl e)
        with wave Promise_all_InlD [of "map f (slice chunks j (j + m))" st e st1]
        have "\<exists>c \<in> set (slice chunks j (j + m)). outcome (f c) = Inl e" by auto
        with 1(2) True wave Inl show ?thesis by (auto simp: Let_def)
      next
        case (Inr batchResults)
        with 1(2) True wave have "loop chunks f m (j + m) (results @ batchResults)
            (calls @ slice chunks j (j + m)) st1 = Some y"
          by (simp add: Let_def)
        from 1(1) [OF this] show ?thesis .
      qed
    qed
  qed
  with assms show ?thesis by blast
qed

text \<open>
  Claim C5 as amended. \<^verbatim>\<open>processChunksInParallel\<close> does not check its sizes and has no error
  of its own: whenever the call fails, it fails with the rejection reason of a chunk it has
  invoked \<^verbatim>\<open>processChunk\<close> on. With a chunk size or a concurrency below 1 (integers): for no
  items the call returns the empty result, with no invocation and the state as it was; for
  some items it never returns a result sequence; and for some items and a chunk size below
  1 \<^verbatim>\<open>chunkArray\<close> never returns, so that the call never returns either.
\<close>

theorem invalid_sizes_not_checked:
  fixes processChunk :: "'a list \<Rightarrow> ('s, 'e, 'r) promise"
  assumes "chunkSize < 1 \<or> maxConcurrency < 1"
  shows "(items = [] \<longrightarrow>
            processChunksInParallel items chunkSize processChunk maxConcurrency st =
              Some (Inr [], [], st)) \<and>
         (items \<noteq> [] \<longrightarrow>
            (\<forall>results calls st'.
               processChunksInParallel items chunkSize processChunk maxConcurrency st \<noteq>
                 Some (Inr results, calls, st'))) \<and>
         (items \<noteq> [] \<and> chunkSize < 1 \<longrightarrow>
            chunkArray items chunkSize = None \<and>
            processChunksInParallel items chunkSize processChunk maxConcurrency st = None) \<and>
         (\<forall>e calls st'.
            processChunksInParallel items chunkSize processChunk maxConcurrency st =
              Some (Inl e, calls, st') \<longrightarrow>
            (\<exists>c \<in> set calls. outcome (processChunk c) = Inl e))"
proof (intro conjI impI allI)
  assume "items = []"
  then show "processChunksInParallel items chunkSize processChunk maxConcurrency st =
      Some (Inr [], [], st)"
    by (simp add: processChunksInParallel_def chunkArray_Nil processChunks_loop.simps)
next
  assume stuck: "items \<noteq> [] \<and> chunkSize < 1"
  then show "chunkArray items chunkSize = None"
    by (simp add: chunkArray_diverges)
  from stuck show "processChunksInParallel items chunkSize processChunk maxConcurrency st = None"
    by (simp add: processChunksInParallel_def chunkArray_diverges)
next
  fix e calls st'
  assume "processChunksInParallel items chunkSize processChunk maxConcurrency st =
      Some (Inl e, calls, st')"
  then obtain chunks where
    "processChunks_loop chunks processChunk maxConcurrency 0 [] [] st = Some (Inl e, calls, st')"
    by (auto simp: processChunksInParallel_def split: option.splits)
  then show "\<exists>c \<in> set calls. outcome (processChunk c) = Inl e"
    by (rule processChunks_loop_failure)
next
  fix results calls st'
  assume items: "items \<noteq> []"
  show "processChunksInParallel items chunkSize processChunk maxConcurrency st \<noteq>
      Some (Inr results, calls, st')"
  proof (cases "chunkSize < 1")
    case True
    with items show ?thesis
      by (simp add: processChunksInParallel_def chunkArray_diverges)
  next
    case False
    with assms have mc: "maxConcurrency \<le> 0" and cs: "1 \<le> chunkSize" by simp_all
    show ?thesis
    proof
      assume run: "processChunksInParallel items chunkSize processChunk maxConcurrency st =
        Some (Inr results, calls, st')"
      then obtain chunks where chunks: "chunkArray items chunkSize = Some chunks"
        and loop: "processChunks_loop chunks processChunk maxConcurrency 0 [] [] st =
          Some (Inr results, calls, st')"
        by (auto simp: processChunksInParallel_def split: option.splits)
      from chunkArray_nonempty [OF cs items chunks] have "0 < int (length chunks)" by simp
      with processChunks_loop_no_result [OF loop] mc show False by simp
    qed
  qed
qed

theorem invalid_sizes_not_checked_witness:
  "((0::int) < 1 \<or> (0::int) < 1) \<and>
   processChunksInParallel [] 0 sumOfChunk 0 () = Some (Inr [], [], ()) \<and>
   chunkArray [1 :: int] 0 = None \<and>
   processChunksInParallel [1] 0 sumOfChunk 0 () = None \<and>
   processChunksInParallel [1, 2, 3, 4, 5] 2 failOnSeven (- 1) () =
     Some (Inl ''seven'', [[1, 2], [3, 4]], ()) \<and>
   (\<exists>c \<in> set [[1, 2], [3, 4 :: int]]. outcome (failOnSeven c) = Inl ''seven'')"
proof -
  have small: "(0::int) < 1 \<or> (0::int) < 1" by simp
  have negative: "(2::int) < 1 \<or> (- 1 :: int) < 1" by simp
  from invalid_sizes_not_checked [OF small, of "[]" sumOfChunk "()"]
  have "processChunksInParallel [] 0 sumOfChunk 0 () = Some (Inr [], [], ())"
    by simp
  moreover from invalid_sizes_not_checked [OF small, of "[1]" sumOfChunk "()"]
  have "chunkArray [1 :: int] 0 = None \<and> processChunksInParallel [1] 0 sumOfChunk 0 () = None"
    by simp
  moreover from invalid_sizes_not_checked [OF negative, of "[1, 2, 3, 4, 5]" failOnSeven "()"]
    no_check_example_negative
  have "\<exists>c \<in> set [[1, 2], [3, 4 :: int]]. outcome (failOnSeven c) = Inl ''seven''"
    by blast
  ultimately show ?thesis using small no_check_example_negative by simp
qed

section \<open>Claims about compareListsByKey\<close>

lemma compare_loop_filter:
  "compare_loop m targetKeySelector transformFound targetList acc =
     \<lparr>found = found acc @
        map (\<lambda>t. case transformFound of
                    Some f \<Rightarrow> f (Map_get m (String (targetKeySelector t))) t
                  | None \<Rightarrow> Map_get m (String (targetKeySelector t)))
            (filter (\<lambda>t. truthy (Map_get m (String (targetKeySelector t)))) targetList),
      notFound = notFound acc @
        filter (\<lambda>t. \<not> truthy (Map_get m (String (targetKeySelector t)))) targetList\<rparr>"
proof (induction targetList arbitrary: acc)
  case Nil
  show ?case by simp
next
  case (Cons t targetList)
  show ?case
    using Cons.IH by (cases transformFound) (simp_all add: Let_def)
qed

lemma String_numberKey:
  "String (numberKey (Number 0)) = ''0''" "String (numberKey (Number 1)) = ''1''"
  by (simp_all add: numberKey_def Safe_inverse decimal.simps)

lemma sourceMap_example:
  "sourceMap_of numberKey [Number 0] (String (numberKey (Number 0))) = Some (Number 0)"
  by (simp add: sourceMap_of_def)

lemma sourceMap_of_last_wins:
  "sourceMap_of sourceKeySelector sourceList k =
     find (\<lambda>item. String (sourceKeySelector item) = k) (rev sourceList)"
  unfolding sourceMap_of_def
  by (induction sourceList rule: rev_induct) simp_all

lemma find_Some_member: "find P xs = Some x \<Longrightarrow> x \<in> set xs \<and> P x"
  by (induction xs) (auto split: if_splits)

lemma sourceMap_of_truthy:
  assumes "\<forall>s \<in> set sourceList. truthy s"
  shows "truthy (Map_get (sourceMap_of sourceKeySelector sourceList) k) \<longleftrightarrow>
         k \<in> String ` sourceKeySelector ` set sourceList"
proof (cases "sourceMap_of sourceKeySelector sourceList k")
  case None
  then have "k \<notin> String ` sourceKeySelector ` set sourceList"
    by (auto simp: sourceMap_of_last_wins find_None_iff)
  with None show ?thesis by (simp add: Map_get_def)
next
  case (Some s)
  then have "s \<in> set sourceList" "String (sourceKeySelector s) = k"
    by (auto simp: sourceMap_of_last_wins dest: find_Some_member)
  with Some assms show ?thesis by (auto simp: Map_get_def)
qed


lemma compareListsByKey_truthy_sources:
  fixes sourceList :: "jsval list" and targetList :: "'u list"
    and sourceKeySelector :: "jsval \<Rightarrow> key" and targetKeySelector :: "'u \<Rightarrow> key"
    and transformFound :: "(jsval \<Rightarrow> 'u \<Rightarrow> jsval) option"
  defines "r \<equiv> compareListsByKey sourceList targetList sourceKeySelector targetKeySelector
                  transformFound"
  defines "present \<equiv> \<lambda>t. String (targetKeySelector t) \<in> String ` sourceKeySelector ` set sourceList"
  assumes "\<forall>s \<in> set sourceList. truthy s"
  shows "notFound r = filter (\<lambda>t. \<not> present t) targetList \<and>
         length (found r) = length (filter present targetList)"
  unfolding r_def present_def compareListsByKey_def
  by (simp add: compare_loop_filter sourceMap_of_truthy [OF assms(3)])

text \<open>
  Claim C7 says that a target item whose key is in the lookup goes to \<open>found\<close> and one
  whose key is not goes to \<open>notFound\<close>. The lookup is built last-write-wins
  (\<open>sourceMap_of_last_wins\<close>), both outputs keep the order of the target list, and for
  source items that are all truthy the classification is by key (\<open>compareListsByKey_truthy_sources\<close>).
  But the test of the code is \<^verbatim>\<open>if (sourceItem)\<close>: with the source items 0 and 1, keyed by
  themselves, both keys are in the lookup, and still the target 0 is reported as not found.
\<close>

theorem present_key_classified_notFound:
  "sourceMap_of numberKey [Number 0, Number 1] (String (numberKey (Number 0))) = Some (Number 0) \<and>
   sourceMap_of numberKey [Number 0, Number 1] (String (numberKey (Number 1))) = Some (Number 1) \<and>
   compareListsByKey [Number 0, Number 1] [Number 0, Number 1] numberKey numberKey None =
     \<lparr>found = [Number 1], notFound = [Number 0]\<rparr>"
  by (simp add: compareListsByKey_def sourceMap_of_def String_numberKey Map_get_def)

text \<open>
  Claim C10. The target items reported as not found are those whose looked-up source value
  is falsy, in target order, and the found entries come from those whose looked-up value is
  truthy, in target order (the source item, or what \<^verbatim>\<open>transformFound\<close> makes of it). So a
  target item whose key is in the lookup with a falsy source item is in \<open>notFound\<close>.
\<close>

theorem falsy_match_is_notFound:
  fixes sourceList :: "jsval list" and targetList :: "'u list"
    and sourceKeySelector :: "jsval \<Rightarrow> key" and targetKeySelector :: "'u \<Rightarrow> key"
    and transformFound :: "(jsval \<Rightarrow> 'u \<Rightarrow> jsval) option"
  defines "r \<equiv> compareListsByKey sourceList targetList sourceKeySelector targetKeySelector
                  transformFound"
  defines "lookup \<equiv> \<lambda>t. Map_get (sourceMap_of sourceKeySelector sourceList)
                             (String (targetKeySelector t))"
  shows "notFound r = filter (\<lambda>t. \<not> truthy (lookup t)) targetList \<and>
         found r = map (\<lambda>t. case transformFound of Some f \<Rightarrow> f (lookup t) t | None \<Rightarrow> lookup t)
                       (filter (\<lambda>t. truthy (lookup t)) targetList) \<and>
         (\<forall>t \<in> set targetList. \<forall>s.
            sourceMap_of sourceKeySelector sourceList (String (targetKeySelector t)) = Some s \<and>
            \<not> truthy s \<longrightarrow> t \<in> set (notFound r))"
proof -
  have run: "r = \<lparr>found = map (\<lambda>t. case transformFound of Some f \<Rightarrow> f (lookup t) t | None \<Rightarrow> lookup t)
                       (filter (\<lambda>t. truthy (lookup t)) targetList),
                  notFound = filter (\<lambda>t. \<not> truthy (lookup t)) targetList\<rparr>"
    unfolding r_def lookup_def compareListsByKey_def by (simp add: compare_loop_filter)
  have "t \<in> set (notFound r)"
    if "t \<in> set targetList"
      "sourceMap_of sourceKeySelector sourceList (String (targetKeySelector t)) = Some s"
      "\<not> truthy s" for t s
    using that by (simp add: run lookup_def Map_get_def)
  with run show ?thesis by simp
qed

theorem falsy_match_is_notFound_witness:
  "Number 0 \<in> set [Number 0] \<and>
   sourceMap_of numberKey [Number 0] (String (numberKey (Number 0))) = Some (Number 0) \<and>
   \<not> truthy (Number 0) \<and>
   Number 0 \<in> set (notFound (compareListsByKey [Number 0] [Number 0] numberKey numberKey None))"
proof -
  have target: "Number 0 \<in> set [Number 0]" by simp
  have falsy: "\<not> truthy (Number 0)" by simp
  from falsy_match_is_notFound [where sourceList = "[Number 0]" and targetList = "[Number 0]"
      and sourceKeySelector = numberKey and targetKeySelector = numberKey
      and transformFound = None, THEN conjunct2, THEN conjunct2]
    target sourceMap_example falsy
  have "Number 0 \<in> set (notFound (compareListsByKey [Number 0] [Number 0] numberKey numberKey None))"
    by blast
  with target sourceMap_example falsy show ?thesis by blast
qed

section \<open>Claims about PaginationRequestSchema\<close>

lemma half_not_int: "(1/2::real) \<notin> \<int>"
proof
  assume "(1/2::real) \<in> \<int>"
  then obtain k :: int where "(1/2::real) = of_int k" by (auto elim: Ints_cases)
  then have "real_of_int 1 = real_of_int (2 * k)" by simp
  then have "(1::int) = 2 * k" by (rule of_int_eq_iff [THEN iffD1])
  then show False by presburger
qed

lemma page_schema_accepts:
  "(\<exists>x. page_schema v = Inr x) \<longleftrightarrow> (v = Absent \<or> (\<exists>x. v = NumberValue x \<and> 0 \<le> x))"
  by (cases v) (auto simp: page_schema_def)

lemma size_schema_accepts:
  "(\<exists>x. size_schema v = Inr x) \<longleftrightarrow> (v = Absent \<or> (\<exists>x. v = NumberValue x \<and> 1 \<le> x \<and> x \<le> 100))"
  by (cases v) (auto simp: size_schema_def)

lemma page_schema_value:
  "page_schema v = Inr x \<Longrightarrow> x = (case v of NumberValue y \<Rightarrow> y | _ \<Rightarrow> 0)"
  by (cases v) (auto simp: page_schema_def split: if_splits)

lemma size_schema_value:
  "size_schema v = Inr x \<Longrightarrow> x = (case v of NumberValue y \<Rightarrow> y | _ \<Rightarrow> 10)"
  by (cases v) (auto simp: size_schema_def split: if_splits)

lemma page_schema_issues:
  "page_schema v = Inl codes \<Longrightarrow>
   codes \<noteq> [] \<and>
   (\<forall>c \<in> set codes.
      (c = invalid_type \<and> (v = NonFinite \<or> v = NonNumber)) \<or>
      (c = too_small \<and> (\<exists>x. v = NumberValue x \<and> x < 0)))"
  by (cases v) (auto simp: page_schema_def split: if_splits)

lemma size_schema_issues:
  "size_schema v = Inl codes \<Longrightarrow>
   codes \<noteq> [] \<and>
   (\<forall>c \<in> set codes.
      (c = invalid_type \<and> (v = NonFinite \<or> v = NonNumber)) \<or>
      (c = too_small \<and> (\<exists>x. v = NumberValue x \<and> x < 1)) \<or>
      (c = too_big \<and> (\<exists>x. v = NumberValue x \<and> 100 < x)))"
  by (cases v) (auto simp: size_schema_def split: if_splits)

text \<open>
  Claim C9 says that a value passes exactly when its page and size are integers within
  their bounds. The schema has no integer check: page \<open>1/2\<close> with size \<open>5/2\<close> passes.
\<close>

theorem PaginationRequestSchema_integer_counterexample:
  "PaginationRequestSchema (ObjectWith (NumberValue (1 / 2)) (NumberValue (5 / 2))) =
     Inr \<lparr>page = 1 / 2, size' = 5 / 2\<rparr> \<and> (1 / 2 :: real) \<notin> \<int>"
  using half_not_int
  by (simp add: PaginationRequestSchema_def page_schema_def size_schema_def)

text \<open>
  Claim C9 as amended. A value passes exactly when it is an object whose page is absent or a
  finite number of at least 0 and whose size is absent or a finite number from 1 to 100,
  integer or not; the parsed request has the given numbers, 0 for an absent page and 10 for
  an absent size. Any other value is rejected with at least one issue, and every issue names
  the field it is about (or the input itself when that is no object) and the constraint the
  field violates: its type, its minimum or its maximum.
\<close>

theorem PaginationRequestSchema_accepts_numbers:
  "((\<exists>request. PaginationRequestSchema input = Inr request) \<longleftrightarrow>
      (\<exists>p s. input = ObjectWith p s \<and>
         (p = Absent \<or> (\<exists>x. p = NumberValue x \<and> 0 \<le> x)) \<and>
         (s = Absent \<or> (\<exists>x. s = NumberValue x \<and> 1 \<le> x \<and> x \<le> 100)))) \<and>
   (\<forall>request. PaginationRequestSchema input = Inr request \<longrightarrow>
      page request = (case page_field input of NumberValue x \<Rightarrow> x | _ \<Rightarrow> 0) \<and>
      size' request = (case size_field input of NumberValue x \<Rightarrow> x | _ \<Rightarrow> 10)) \<and>
   (\<forall>issues. PaginationRequestSchema input = Inl issues \<longrightarrow>
      issues \<noteq> [] \<and>
      (\<forall>(path, code) \<in> set issues.
         (path = [] \<and> code = invalid_type \<and> input = NotAnObject) \<or>
         (path = [''page''] \<and>
            ((code = invalid_type \<and> page_field input \<in> {NonFinite, NonNumber}) \<or>
             (code = too_small \<and> (\<exists>x. page_field input = NumberValue x \<and> x < 0)))) \<or>
         (path = [''size''] \<and>
            ((code = invalid_type \<and> size_field input \<in> {NonFinite, NonNumber}) \<or>
             (code = too_small \<and> (\<exists>x. size_field input = NumberValue x \<and> x < 1)) \<or>
             (code = too_big \<and> (\<exists>x. size_field input = NumberValue x \<and> 100 < x))))))"
proof (cases input)
  case NotAnObject
  then show ?thesis by (simp add: PaginationRequestSchema_def)
next
  case (ObjectWith p s)
  show ?thesis
  proof (cases "page_schema p")
    case pl: (Inl pcodes)
    note pi = page_schema_issues [OF pl]
    have pa: "\<not> (p = Absent \<or> (\<exists>x. p = NumberValue x \<and> 0 \<le> x))"
      using page_schema_accepts [of p] pl by simp
    show ?thesis
    proof (cases "size_schema s")
      case sl: (Inl scodes)
      note si = size_schema_issues [OF sl]
      from pl sl have run: "PaginationRequestSchema input =
          Inl (map (\<lambda>c. ([''page''], c)) pcodes @ map (\<lambda>c. ([''size''], c)) scodes)"
        by (simp add: PaginationRequestSchema_def ObjectWith issues_at_def)
      show ?thesis unfolding run using pi si pa ObjectWith by auto
    next
      case sr: (Inr sx)
      from pl sr have run: "PaginationRequestSchema input = Inl (map (\<lambda>c. ([''page''], c)) pcodes)"
        by (simp add: PaginationRequestSchema_def ObjectWith issues_at_def)
      show ?thesis unfolding run using pi pa ObjectWith by auto
    qed
  next
    case pr: (Inr px)
    have pa: "p = Absent \<or> (\<exists>x. p = NumberValue x \<and> 0 \<le> x)"
      using page_schema_accepts [of p] pr by blast
    show ?thesis
    proof (cases "size_schema s")
      case sl: (Inl scodes)
      note si = size_schema_issues [OF sl]
      have sa: "\<not> (s = Absent \<or> (\<exists>x. s = NumberValue x \<and> 1 \<le> x \<and> x \<le> 100))"
        using size_schema_accepts [of s] sl by simp
      from pr sl have run: "PaginationRequestSchema input = Inl (map (\<lambda>c. ([''size''], c)) scodes)"
        by (simp add: PaginationRequestSchema_def ObjectWith issues_at_def)
      show ?thesis unfolding run using si sa ObjectWith by auto
    next
      case sr: (Inr sx)
      have sa: "s = Absent \<or> (\<exists>x. s = NumberValue x \<and> 1 \<le> x \<and> x \<le> 100)"
        using size_schema_accepts [of s] sr by blast
      from pr sr have run: "PaginationRequestSchema input = Inr \<lparr>page = px, size' = sx\<rparr>"
        by (simp add: PaginationRequestSchema_def ObjectWith)
      show ?thesis unfolding run
        using pa sa ObjectWith page_schema_value [OF pr] size_schema_value [OF sr] by auto
    qed
  qed
qed

theorem PaginationRequestSchema_accepts_numbers_witness:
  "PaginationRequestSchema (ObjectWith (NumberValue (- 1)) (NumberValue 101)) =
     Inl [([''page''], too_small), ([''size''], too_big)] \<and>
   (\<exists>request. PaginationRequestSchema (ObjectWith Absent (NumberValue 7)) = Inr request \<and>
      page request = 0 \<and> size' request = 7)"
proof -
  have rejected: "PaginationRequestSchema (ObjectWith (NumberValue (- 1)) (NumberValue 101)) =
     Inl [([''page''], too_small), ([''size''], too_big)]"
    by (simp add: PaginationRequestSchema_def page_schema_def size_schema_def issues_at_def)
  note inst = PaginationRequestSchema_accepts_numbers [of "ObjectWith Absent (NumberValue 7)"]
  from inst [THEN conjunct1]
  obtain request where ok: "PaginationRequestSchema (ObjectWith Absent (NumberValue 7)) = Inr request"
    by auto
  with inst [THEN conjunct2, THEN conjunct1] have "page request = 0 \<and> size' request = 7"
    by simp
  with ok rejected show ?thesis by blast
qed

end
